theory Spec2Isabelle
  imports Main "HOL-Library.Word" "HOL-Library.Multiset" "HOL-Library.Dlist"
begin

section \<open>Platform constants and basic types\<close>

text \<open>
  The allocator of \<^verbatim>\<open>scst_mem.c\<close> is compiled against kernel constants that are
  not part of the repository: the page size, the timer frequency and the number of
  per-order caches of a pool. They are parameters of every definition below.
  Page counts, lengths and page frame numbers are modelled without wrap-around
  (\<open>int\<close> and \<open>nat\<close>); only \<open>jiffies\<close>, whose comparison macro is written for
  wrap-around, is a machine word (\<open>unsigned long\<close> of an LP64 kernel).
\<close>

record platform =
  PAGE_SHIFT :: nat
  HZ :: int
  SGV_POOL_ELEMENTS :: int

definition PAGE_SIZE :: "platform \<Rightarrow> nat" where
  "PAGE_SIZE pf = 2 ^ PAGE_SHIFT pf"

text \<open>\<^verbatim>\<open>(len >> PAGE_SHIFT) + ((len & ~PAGE_MASK) != 0)\<close>\<close>

definition len_to_pages :: "platform \<Rightarrow> nat \<Rightarrow> nat" where
  "len_to_pages pf len =
     len div PAGE_SIZE pf + (if len mod PAGE_SIZE pf \<noteq> 0 then 1 else 0)"

type_synonym ulong = "64 word"

text \<open>\<^verbatim>\<open>time_after_eq(a, b)\<close> of \<^verbatim>\<open>linux/jiffies.h\<close>: \<^verbatim>\<open>(long)(a) - (long)(b) >= 0\<close>.\<close>

definition time_after_eq :: "ulong \<Rightarrow> ulong \<Rightarrow> bool" where
  "time_after_eq a b = (0 \<le> sint (a - b))"

definition PURGE_INTERVAL :: "platform \<Rightarrow> int" where
  "PURGE_INTERVAL pf = 60 * HZ pf"

definition PURGE_TIME_AFTER :: "platform \<Rightarrow> int" where
  "PURGE_TIME_AFTER pf = PURGE_INTERVAL pf"

definition SHRINK_TIME_AFTER :: "platform \<Rightarrow> int" where
  "SHRINK_TIME_AFTER pf = 1 * HZ pf"

definition MAX_PAGES_PER_POOL :: int where
  "MAX_PAGES_PER_POOL = 50"

definition ENOMEM :: int where
  "ENOMEM = 12"

text \<open>
  An \<^verbatim>\<open>int\<close> and an \<^verbatim>\<open>atomic_t\<close> are 32 bits wide, and the kernel is compiled so
  that signed arithmetic wraps around. \<open>int32 x\<close> is the value such a variable holds
  after the result \<open>x\<close> of an addition or subtraction is stored in it. The two gates
  below, which compare a sum they have just formed, reduce it where the code forms it.
  The releases, which give back pages counted before, are plain subtractions: they are
  the machine's as long as the counter stays an \<^verbatim>\<open>int\<close> value.
\<close>

definition INT_MAX :: int where
  "INT_MAX = 2147483647"

definition INT_MIN :: int where
  "INT_MIN = - 2147483648"

definition int32 :: "int \<Rightarrow> int" where
  "int32 x = (x + 2147483648) mod 4294967296 - 2147483648"

definition is_int32 :: "int \<Rightarrow> bool" where
  "is_int32 x \<longleftrightarrow> INT_MIN \<le> x \<and> x \<le> INT_MAX"

section \<open>Per-consumer quota\<close>

record scst_mem_lim =
  alloced_pages :: int
  max_allowed_pages :: int

definition sgv_check_allowed_mem :: "scst_mem_lim \<Rightarrow> int \<Rightarrow> bool \<times> scst_mem_lim" where
  "sgv_check_allowed_mem mem_lim pages =
     (let alloced = int32 (alloced_pages mem_lim + pages);
          m1 = mem_lim\<lparr>alloced_pages := alloced\<rparr>
      in if alloced > max_allowed_pages mem_lim
         then (False, m1\<lparr>alloced_pages := int32 (alloced_pages m1 - pages)\<rparr>)
         else (True, m1))"

definition sgv_uncheck_allowed_mem :: "scst_mem_lim \<Rightarrow> int \<Rightarrow> scst_mem_lim" where
  "sgv_uncheck_allowed_mem mem_lim pages =
     mem_lim\<lparr>alloced_pages := alloced_pages mem_lim - pages\<rparr>"

section \<open>Scatter-gather entries and clustering\<close>

text \<open>
  A \<^verbatim>\<open>struct page *\<close> is identified with the frame number of the page it describes
  (\<open>None\<close> is \<^verbatim>\<open>NULL\<close>), so \<^verbatim>\<open>page_to_pfn\<close> reads the number off and pointer
  arithmetic on pages is arithmetic on frame numbers.
\<close>

record scatterlist =
  sg_page :: "nat option"
  sg_offset :: nat
  sg_length :: nat

definition sg_clear :: scatterlist where
  "sg_clear = \<lparr>sg_page = None, sg_offset = 0, sg_length = 0\<rparr>"

text \<open>The assignment \<^verbatim>\<open>sg[i].length = l\<close>.\<close>

definition sg_set_length :: "scatterlist list \<Rightarrow> nat \<Rightarrow> nat \<Rightarrow> scatterlist list" where
  "sg_set_length sg i l = sg[i := (sg ! i)\<lparr>sg_length := l\<rparr>]"

definition page_to_pfn :: "nat option \<Rightarrow> nat" where
  "page_to_pfn p = the p"

datatype merge_label = out_head | out_tail

text \<open>The two tests the source makes on a candidate entry \<open>i\<close>, in its order.\<close>

definition full_clustering_test ::
  "platform \<Rightarrow> scatterlist list \<Rightarrow> nat \<Rightarrow> nat \<Rightarrow> merge_label option" where
  "full_clustering_test pf sg cur i =
     (let pfn_cur = page_to_pfn (sg_page (sg ! cur));
          len_cur = sg_length (sg ! cur);
          pfn_cur_next = pfn_cur + len_cur div PAGE_SIZE pf;
          full_page_cur = (len_cur mod PAGE_SIZE pf = 0);
          pfn = page_to_pfn (sg_page (sg ! i));
          pfn_next = pfn + sg_length (sg ! i) div PAGE_SIZE pf;
          full_page = (sg_length (sg ! i) mod PAGE_SIZE pf = 0)
      in if pfn = pfn_cur_next \<and> full_page_cur then Some out_head
         else if pfn_next = pfn_cur \<and> full_page then Some out_tail
         else None)"

text \<open>\<^verbatim>\<open>for (i = cur - 1; i >= 0; i--)\<close>: the last argument is \<open>i + 1\<close>.\<close>

fun full_clustering_scan ::
  "platform \<Rightarrow> scatterlist list \<Rightarrow> nat \<Rightarrow> nat \<Rightarrow> (nat \<times> merge_label) option" where
  "full_clustering_scan pf sg cur 0 = None"
| "full_clustering_scan pf sg cur (Suc i) =
     (case full_clustering_test pf sg cur i of
        Some l \<Rightarrow> Some (i, l)
      | None \<Rightarrow> full_clustering_scan pf sg cur i)"

definition sgv_check_full_clustering ::
  "platform \<Rightarrow> scatterlist list \<Rightarrow> nat \<Rightarrow> int \<Rightarrow> int \<times> scatterlist list" where
  "sgv_check_full_clustering pf sg cur hint =
     (let len_cur = sg_length (sg ! cur);
          hinted = (if 0 \<le> hint
                    then (case full_clustering_test pf sg cur (nat hint) of
                            Some l \<Rightarrow> Some (nat hint, l)
                          | None \<Rightarrow> None)
                    else None);
          found = (case hinted of
                     Some r \<Rightarrow> Some r
                   | None \<Rightarrow> full_clustering_scan pf sg cur cur)
      in case found of
           None \<Rightarrow> (- 1, sg)
         | Some (i, out_tail) \<Rightarrow>
             (int i,
              (sg[i := (sg ! i)\<lparr>sg_length := sg_length (sg ! i) + len_cur\<rparr>])
                [cur := sg_clear])
         | Some (i, out_head) \<Rightarrow>
             (int i,
              (sg[i := (sg ! i)\<lparr>sg_page := sg_page (sg ! cur),
                                sg_length := sg_length (sg ! i) + len_cur\<rparr>])
                [cur := sg_clear]))"

definition sgv_check_tail_clustering ::
  "platform \<Rightarrow> scatterlist list \<Rightarrow> nat \<Rightarrow> int \<Rightarrow> int \<times> scatterlist list" where
  "sgv_check_tail_clustering pf sg cur hint =
     (let pfn_cur = page_to_pfn (sg_page (sg ! cur));
          len_cur = sg_length (sg ! cur)
      in if cur = 0 then (- 1, sg)
         else
           (let prev = cur - 1;
                pfn_prev = page_to_pfn (sg_page (sg ! prev))
                             + sg_length (sg ! prev) div PAGE_SIZE pf;
                full_page = (sg_length (sg ! prev) mod PAGE_SIZE pf = 0)
            in if pfn_prev = pfn_cur \<and> full_page
               then (int prev,
                     (sg[prev := (sg ! prev)\<lparr>sg_length := sg_length (sg ! prev) + len_cur\<rparr>])
                       [cur := sg_clear])
               else (- 1, sg)))"


section \<open>Objects, pools and the global state\<close>

datatype sgv_clustering_types = sgv_no_clustering | sgv_tail_clustering | sgv_full_clustering

record trans_tbl_ent =
  sg_num :: nat
  pg_count :: nat

text \<open>
  An object is a value; \<open>obj_addr\<close> is the address \<^verbatim>\<open>kmem_cache_alloc\<close> or
  \<^verbatim>\<open>kmalloc\<close> returned for it, which tells two objects of equal contents apart on
  the intrusive lists. Memory for metadata is not tracked beyond the success or failure
  of each allocation, so \<^verbatim>\<open>kfree\<close> and \<^verbatim>\<open>kmem_cache_free\<close> leave no trace in the
  state; pages are tracked (\<open>pages_live\<close> below).
\<close>

record sgv_pool_obj =
  obj_addr :: nat
  order_or_pages :: int
  owner_pool :: nat
  sg_entries :: "scatterlist list"
  trans_tbl :: "trans_tbl_ent list option"
  sg_count :: int
  orig_sg :: int
  orig_length :: nat
  time_stamp :: ulong
  allocator_priv :: nat

text \<open>
  \<open>sgv_purge_work\<close> is the pool's delayed work: \<open>Some d\<close> while it is queued with
  delay \<open>d\<close>. The per-order arrays are functions of the order.
\<close>

record sgv_pool =
  clustering_type :: sgv_clustering_types
  recycling_lists :: "nat \<Rightarrow> sgv_pool_obj list"
  sorted_recycling_list :: "sgv_pool_obj list"
  cached_entries :: int
  cached_pages :: int
  inactive_cached_pages :: int
  purge_work_scheduled :: bool
  sgv_purge_work :: "int option"
  sgv_pool_ref :: int
  cache_acc_total_alloc :: "nat \<Rightarrow> int"
  cache_acc_hit_alloc :: "nat \<Rightarrow> int"
  cache_acc_merged :: "nat \<Rightarrow> int"
  big_alloc :: int
  big_pages :: int
  big_merged :: int
  other_alloc :: int
  other_pages :: int
  other_merged :: int

text \<open>
  The file's static variables, the memory holding the pools (\<open>pool_at\<close>, by address),
  and the environment: the clock, the outcomes of the coming \<^verbatim>\<open>alloc_pages\<close> calls
  (\<open>Some pfn\<close>, or \<open>None\<close> for \<^verbatim>\<open>NULL\<close>) and of the coming \<^verbatim>\<open>kmalloc\<close> and
  \<^verbatim>\<open>kmem_cache_alloc\<close> calls (\<open>Some address\<close> or \<open>None\<close>), and the pages
  currently allocated. An exhausted outcome list means the allocation fails. A pool
  is a node of the active list, so it stands there at most once: the list has distinct
  members by its type.
\<close>

record sgv_state =
  sgv_pages_total :: int
  sgv_hi_wmk :: int
  sgv_lo_wmk :: int
  sgv_max_local_order :: int
  sgv_max_trans_order :: int
  sgv_cur_purge_pool :: "nat option"
  sgv_active_pools_list :: "nat dlist"
  sgv_pools_list :: "nat list"
  sgv_releases_on_hiwmk :: int
  sgv_releases_on_hiwmk_failed :: int
  sgv_other_total_alloc :: int
  pool_at :: "nat \<Rightarrow> sgv_pool"
  jiffies :: ulong
  page_src :: "nat option list"
  kmalloc_src :: "nat option list"
  pages_live :: "nat multiset"

definition upd_pool :: "sgv_state \<Rightarrow> nat \<Rightarrow> (sgv_pool \<Rightarrow> sgv_pool) \<Rightarrow> sgv_state" where
  "upd_pool s p f = s\<lparr>pool_at := (pool_at s)(p := f (pool_at s p))\<rparr>"

definition sgv_pool_clustered :: "sgv_pool \<Rightarrow> bool" where
  "sgv_pool_clustered pool = (clustering_type pool \<noteq> sgv_no_clustering)"

subsection \<open>The environment: page and metadata allocation\<close>

definition alloc_pages :: "sgv_state \<Rightarrow> nat option \<times> sgv_state" where
  "alloc_pages s =
     (case page_src s of
        [] \<Rightarrow> (None, s)
      | None # rest \<Rightarrow> (None, s\<lparr>page_src := rest\<rparr>)
      | Some p # rest \<Rightarrow>
          (Some p, s\<lparr>page_src := rest, pages_live := add_mset p (pages_live s)\<rparr>))"

definition free_page :: "nat \<Rightarrow> sgv_state \<Rightarrow> sgv_state" where
  "free_page p s = s\<lparr>pages_live := pages_live s - {#p#}\<rparr>"

definition kmalloc :: "sgv_state \<Rightarrow> nat option \<times> sgv_state" where
  "kmalloc s =
     (case kmalloc_src s of
        [] \<Rightarrow> (None, s)
      | r # rest \<Rightarrow> (r, s\<lparr>kmalloc_src := rest\<rparr>))"

text \<open>
  \<^verbatim>\<open>sgv_free_sys_sg_entries\<close>: for each of the first \<open>sg_count\<close> entries, the pages
  \<open>p, p + 1, ...\<close> it covers are freed one by one (order 0).
\<close>

definition sgv_free_sys_sg_entries ::
  "platform \<Rightarrow> sgv_state \<Rightarrow> scatterlist list \<Rightarrow> int \<Rightarrow> sgv_state" where
  "sgv_free_sys_sg_entries pf s sg cnt =
     fold (\<lambda>e. fold (\<lambda>k. free_page (page_to_pfn (sg_page e) + k))
                  [0..<len_to_pages pf (sg_length e)])
          (take (nat cnt) sg) s"

definition sgv_alloc_sys_pages ::
  "platform \<Rightarrow> sgv_state \<Rightarrow> scatterlist list \<Rightarrow> nat
     \<Rightarrow> nat option \<times> scatterlist list \<times> sgv_state" where
  "sgv_alloc_sys_pages pf s sg idx =
     (let (page, s1) = alloc_pages s
      in (page,
          sg[idx := \<lparr>sg_page = page, sg_offset = 0, sg_length = PAGE_SIZE pf\<rparr>],
          s1))"

subsection \<open>Removing objects from the cache\<close>

text \<open>
  \<^verbatim>\<open>list_del\<close> unlinks an object from the list it stands on, whichever that is.
\<close>

definition list_del_sorted :: "sgv_pool_obj \<Rightarrow> sgv_state \<Rightarrow> sgv_state" where
  "list_del_sorted obj s =
     s\<lparr>pool_at := (\<lambda>q. (pool_at s q)
           \<lparr>sorted_recycling_list := remove1 obj (sorted_recycling_list (pool_at s q))\<rparr>)\<rparr>"

definition list_del_recycling :: "sgv_pool_obj \<Rightarrow> sgv_state \<Rightarrow> sgv_state" where
  "list_del_recycling obj s =
     s\<lparr>pool_at := (\<lambda>q. (pool_at s q)
           \<lparr>recycling_lists := (\<lambda>i. remove1 obj (recycling_lists (pool_at s q) i))\<rparr>)\<rparr>"

text \<open>The entry after \<open>p\<close> on a list; \<open>None\<close> is the list head.\<close>

fun list_next :: "nat list \<Rightarrow> nat \<Rightarrow> nat option" where
  "list_next [] p = None"
| "list_next (x # xs) p =
     (if x = p then (case xs of [] \<Rightarrow> None | y # _ \<Rightarrow> Some y) else list_next xs p)"

definition list_first :: "nat list \<Rightarrow> nat option" where
  "list_first xs = (case xs of [] \<Rightarrow> None | y # _ \<Rightarrow> Some y)"

definition sgv_del_from_active :: "nat \<Rightarrow> sgv_state \<Rightarrow> sgv_state" where
  "sgv_del_from_active pool s =
     (let next = list_next (list_of_dlist (sgv_active_pools_list s)) pool;
          s1 = s\<lparr>sgv_active_pools_list := Dlist.remove pool (sgv_active_pools_list s)\<rparr>
      in if sgv_cur_purge_pool s1 = Some pool
         then (let next1 = (case next of
                              None \<Rightarrow> list_first (list_of_dlist (sgv_active_pools_list s1))
                            | Some q \<Rightarrow> Some q)
               in s1\<lparr>sgv_cur_purge_pool := next1\<rparr>)
         else s1)"

definition sgv_dec_cached_entries :: "nat \<Rightarrow> int \<Rightarrow> sgv_state \<Rightarrow> sgv_state" where
  "sgv_dec_cached_entries pool pages s =
     (let s1 = upd_pool s pool
                 (\<lambda>p. p\<lparr>cached_entries := cached_entries p - 1,
                        cached_pages := cached_pages p - pages\<rparr>)
      in if cached_entries (pool_at s1 pool) = 0 then sgv_del_from_active pool s1 else s1)"

text \<open>
  \<^verbatim>\<open>1 << order\<close>, for the order of a cached object (never negative). A source name
  that begins with two underscores is written with the prefix \<open>uu_\<close>.
\<close>

definition order_pages :: "int \<Rightarrow> int" where
  "order_pages order = 2 ^ nat order"

definition uu_sgv_purge_from_cache :: "sgv_pool_obj \<Rightarrow> sgv_state \<Rightarrow> sgv_state" where
  "uu_sgv_purge_from_cache obj s =
     (let pages = order_pages (order_or_pages obj);
          pool = owner_pool obj;
          s1 = list_del_sorted obj s;
          s2 = list_del_recycling obj s1;
          s3 = upd_pool s2 pool
                 (\<lambda>p. p\<lparr>inactive_cached_pages := inactive_cached_pages p - pages\<rparr>);
          s4 = sgv_dec_cached_entries pool pages s3
      in s4\<lparr>sgv_pages_total := sgv_pages_total s4 - pages\<rparr>)"

definition sgv_purge_from_cache ::
  "sgv_pool_obj \<Rightarrow> int \<Rightarrow> ulong \<Rightarrow> sgv_state \<Rightarrow> bool \<times> sgv_state" where
  "sgv_purge_from_cache obj after cur_time s =
     (if time_after_eq cur_time (time_stamp obj + word_of_int after)
      then (True, uu_sgv_purge_from_cache obj s)
      else (False, s))"

definition sgv_dtor_and_free :: "platform \<Rightarrow> sgv_pool_obj \<Rightarrow> sgv_state \<Rightarrow> sgv_state" where
  "sgv_dtor_and_free pf obj s =
     (if sg_count obj \<noteq> 0
      then sgv_free_sys_sg_entries pf s (sg_entries obj) (sg_count obj)
      else s)"


subsection \<open>Shrinking one pool\<close>

lemma fold_keeps:
  assumes "\<And>x s. g (f x s) = g s"
  shows "g (fold f xs s) = g s"
  using assms by (induction xs arbitrary: s) simp_all

definition entry_pfns :: "platform \<Rightarrow> scatterlist \<Rightarrow> nat list" where
  "entry_pfns pf e = map (\<lambda>k. page_to_pfn (sg_page e) + k) [0..<len_to_pages pf (sg_length e)]"

lemma fold_free_page:
  "fold (\<lambda>k. free_page (f k)) ks s = s\<lparr>pages_live := pages_live s - mset (map f ks)\<rparr>"
  by (induction ks arbitrary: s) (simp_all add: free_page_def)

lemma fold_fold_free_page:
  "fold (\<lambda>e. fold (\<lambda>k. free_page (g e + k)) (h e)) es s
      = s\<lparr>pages_live := pages_live s - mset (concat (map (\<lambda>e. map (\<lambda>k. g e + k) (h e)) es))\<rparr>"
  by (induction es arbitrary: s) (simp_all add: fold_free_page)

lemma free_sys_closed:
  "sgv_free_sys_sg_entries pf s sg cnt =
     s\<lparr>pages_live := pages_live s - mset (concat (map (entry_pfns pf) (take (nat cnt) sg)))\<rparr>"
  unfolding sgv_free_sys_sg_entries_def entry_pfns_def by (rule fold_fold_free_page)

lemma free_sys_eq:
  "sgv_free_sys_sg_entries pf s sg cnt = s\<lparr>pages_live := pages_live (sgv_free_sys_sg_entries pf s sg cnt)\<rparr>"
  by (simp add: free_sys_closed)

lemma dtor_eq:
  "sgv_dtor_and_free pf obj s = s\<lparr>pages_live := pages_live (sgv_dtor_and_free pf obj s)\<rparr>"
  unfolding sgv_dtor_and_free_def using free_sys_eq[of pf s] by auto

function sgv_shrink_pool_loop ::
  "platform \<Rightarrow> nat \<Rightarrow> int \<Rightarrow> ulong \<Rightarrow> int \<Rightarrow> int \<Rightarrow> sgv_state \<Rightarrow> int \<times> sgv_state" where
  "sgv_shrink_pool_loop pf pool after cur_time nr freed s =
     (case sorted_recycling_list (pool_at s pool) of
        [] \<Rightarrow> (nr, s)
      | obj # _ \<Rightarrow>
          if sgv_pages_total s > sgv_lo_wmk s
          then (let r = sgv_purge_from_cache obj after cur_time s
                in if fst r
                   then (let pages = order_pages (order_or_pages obj);
                             freed1 = freed + pages;
                             nr1 = nr - pages;
                             s1 = sgv_dtor_and_free pf obj (snd r)
                         in if nr1 \<le> 0 \<or> freed1 \<ge> MAX_PAGES_PER_POOL
                            then (nr1, s1)
                            else sgv_shrink_pool_loop pf pool after cur_time nr1 freed1 s1)
                   else (nr, s))
          else (nr, s))"
  by pat_completeness auto

lemma sorted_after_purge:
  "sorted_recycling_list (pool_at (uu_sgv_purge_from_cache obj s) p)
     = remove1 obj (sorted_recycling_list (pool_at s p))"
  by (simp add: uu_sgv_purge_from_cache_def Let_def sgv_dec_cached_entries_def
       sgv_del_from_active_def upd_pool_def list_del_recycling_def list_del_sorted_def)

lemma sorted_after_dtor:
  "sorted_recycling_list (pool_at (sgv_dtor_and_free pf obj s) p) = sorted_recycling_list (pool_at s p)"
  by (subst dtor_eq) simp

termination sgv_shrink_pool_loop
  apply (relation "measure (\<lambda>(pf, pool, after, cur_time, nr, freed, s). length (sorted_recycling_list (pool_at s pool)))")
   apply simp
  apply (simp add: sgv_purge_from_cache_def sorted_after_dtor sorted_after_purge split: if_splits)
  done

declare sgv_shrink_pool_loop.simps [simp del]


definition sgv_shrink_pool ::
  "platform \<Rightarrow> nat \<Rightarrow> int \<Rightarrow> int \<Rightarrow> ulong \<Rightarrow> sgv_state \<Rightarrow> int \<times> sgv_state" where
  "sgv_shrink_pool pf pool nr after cur_time s = sgv_shrink_pool_loop pf pool after cur_time nr 0 s"

definition sgv_pool_get :: "nat \<Rightarrow> sgv_state \<Rightarrow> sgv_state" where
  "sgv_pool_get pool s = upd_pool s pool (\<lambda>p. p\<lparr>sgv_pool_ref := sgv_pool_ref p + 1\<rparr>)"

function sgv_pool_flush_list :: "platform \<Rightarrow> nat \<Rightarrow> nat \<Rightarrow> sgv_state \<Rightarrow> sgv_state" where
  "sgv_pool_flush_list pf pool i s =
     (case recycling_lists (pool_at s pool) i of
        [] \<Rightarrow> s
      | obj # _ \<Rightarrow>
          sgv_pool_flush_list pf pool i
            (sgv_dtor_and_free pf obj (uu_sgv_purge_from_cache obj s)))"
  by pat_completeness auto

lemma recycling_after_purge:
  "recycling_lists (pool_at (uu_sgv_purge_from_cache obj s) p) i
     = remove1 obj (recycling_lists (pool_at s p) i)"
  by (simp add: uu_sgv_purge_from_cache_def Let_def sgv_dec_cached_entries_def
       sgv_del_from_active_def upd_pool_def list_del_recycling_def list_del_sorted_def)

lemma pool_at_dtor [simp]:
  "pool_at (sgv_dtor_and_free pf obj s) = pool_at s"
  by (subst dtor_eq) simp

termination sgv_pool_flush_list
  apply (relation "measure (\<lambda>(pf, pool, i, s). length (recycling_lists (pool_at s pool) i))")
   apply simp
  apply (simp add: recycling_after_purge)
  done

declare sgv_pool_flush_list.simps [simp del]

definition sgv_pool_flush :: "platform \<Rightarrow> nat \<Rightarrow> sgv_state \<Rightarrow> sgv_state" where
  "sgv_pool_flush pf pool s =
     fold (sgv_pool_flush_list pf pool) [0..<nat (SGV_POOL_ELEMENTS pf)] s"

definition sgv_pool_deinit :: "platform \<Rightarrow> nat \<Rightarrow> sgv_state \<Rightarrow> sgv_state" where
  "sgv_pool_deinit pf pool s =
     (let s1 = upd_pool s pool (\<lambda>p. p\<lparr>sgv_purge_work := None\<rparr>);
          s2 = sgv_pool_flush pf pool s1
      in s2\<lparr>sgv_pools_list := remove1 pool (sgv_pools_list s2)\<rparr>)"

definition sgv_pool_destroy :: "platform \<Rightarrow> nat \<Rightarrow> sgv_state \<Rightarrow> sgv_state" where
  "sgv_pool_destroy pf pool s = sgv_pool_deinit pf pool s"

definition sgv_pool_put :: "platform \<Rightarrow> nat \<Rightarrow> sgv_state \<Rightarrow> sgv_state" where
  "sgv_pool_put pf pool s =
     (let s1 = upd_pool s pool (\<lambda>p. p\<lparr>sgv_pool_ref := sgv_pool_ref p - 1\<rparr>)
      in if sgv_pool_ref (pool_at s1 pool) = 0 then sgv_pool_destroy pf pool s1 else s1)"

function sgv_shrink_loop ::
  "platform \<Rightarrow> int \<Rightarrow> ulong \<Rightarrow> int \<Rightarrow> int \<Rightarrow> bool \<Rightarrow> sgv_state \<Rightarrow> int \<times> sgv_state" where
  "sgv_shrink_loop pf after cur_time nr prev_nr circle s =
     (if nr > 0
      then (let al = list_of_dlist (sgv_active_pools_list s)
            in case (case sgv_cur_purge_pool s of None \<Rightarrow> list_first al | Some p \<Rightarrow> Some p) of
                 None \<Rightarrow> (nr, s)
               | Some pool \<Rightarrow>
                   (let s1 = sgv_pool_get pool s;
                        next = list_next al pool
                    in if next = None \<and> circle \<and> prev_nr = nr
                       then (nr, sgv_pool_put pf pool s1)
                       else (let circle1 = (if next = None then True else circle);
                                 prev_nr1 = (if next = None then nr else prev_nr);
                                 next1 = (case next of None \<Rightarrow> list_first al | Some q \<Rightarrow> Some q);
                                 s2 = s1\<lparr>sgv_cur_purge_pool := next1\<rparr>;
                                 r = sgv_shrink_pool pf pool nr after cur_time s2;
                                 s3 = sgv_pool_put pf pool (snd r)
                             in sgv_shrink_loop pf after cur_time (fst r) prev_nr1 circle1 s3)))
      else (nr, s))"
  by pat_completeness auto


lemma order_pages_pos: "0 < order_pages n"
  by (simp add: order_pages_def)

lemma shrink_pool_loop_le:
  "fst (sgv_shrink_pool_loop pf pool after cur_time nr freed s) \<le> nr \<and>
   (fst (sgv_shrink_pool_loop pf pool after cur_time nr freed s) = nr \<longrightarrow>
      snd (sgv_shrink_pool_loop pf pool after cur_time nr freed s) = s)"
proof (induction pf pool after cur_time nr freed s rule: sgv_shrink_pool_loop.induct)
  case (1 pf pool after cur_time nr freed s)
  show ?case
  proof (cases "sorted_recycling_list (pool_at s pool)")
    case Nil
    then show ?thesis by (subst sgv_shrink_pool_loop.simps, simp)+
  next
    case (Cons obj rest)
    let ?r = "sgv_purge_from_cache obj after cur_time s"
    let ?pages = "order_pages (order_or_pages obj)"
    let ?s1 = "sgv_dtor_and_free pf obj (snd ?r)"
    show ?thesis
    proof (cases "sgv_pages_total s > sgv_lo_wmk s \<and> fst ?r")
      case False
      with Cons show ?thesis by (subst sgv_shrink_pool_loop.simps, auto simp: Let_def)+
    next
      case True
      note T = True
      show ?thesis
      proof (cases "nr - ?pages \<le> 0 \<or> freed + ?pages \<ge> MAX_PAGES_PER_POOL")
        case True
        have "sgv_shrink_pool_loop pf pool after cur_time nr freed s = (nr - ?pages, ?s1)"
          using Cons T True by (subst sgv_shrink_pool_loop.simps) (simp add: Let_def)
        then show ?thesis using order_pages_pos[of "order_or_pages obj"] by simp
      next
        case False
        have eq: "sgv_shrink_pool_loop pf pool after cur_time nr freed s
                = sgv_shrink_pool_loop pf pool after cur_time (nr - ?pages) (freed + ?pages) ?s1"
          using Cons T False by (subst sgv_shrink_pool_loop.simps) (simp add: Let_def)
        have "fst (sgv_shrink_pool_loop pf pool after cur_time (nr - ?pages) (freed + ?pages) ?s1) \<le> nr - ?pages"
          using "1.IH"[OF Cons _ refl _ refl refl refl refl] T False by simp
        then show ?thesis using eq order_pages_pos[of "order_or_pages obj"] by simp
      qed
    qed
  qed
qed


definition act_list :: "sgv_state \<Rightarrow> nat list" where
  "act_list s = list_of_dlist (sgv_active_pools_list s)"

definition act_inv :: "sgv_state \<Rightarrow> bool" where
  "act_inv s = (case sgv_cur_purge_pool s of None \<Rightarrow> True | Some c \<Rightarrow> c \<in> set (act_list s))"

definition act_step :: "sgv_state \<Rightarrow> sgv_state \<Rightarrow> bool" where
  "act_step s s' =
     (act_inv s \<longrightarrow>
        act_inv s' \<and>
        (length (act_list s') < length (act_list s) \<or>
         (sgv_active_pools_list s' = sgv_active_pools_list s \<and>
          sgv_cur_purge_pool s' = sgv_cur_purge_pool s)))"

lemma act_step_same:
  "sgv_active_pools_list s' = sgv_active_pools_list s \<Longrightarrow>
   sgv_cur_purge_pool s' = sgv_cur_purge_pool s \<Longrightarrow> act_step s s'"
  by (auto simp: act_step_def act_inv_def act_list_def split: option.splits)

lemma act_step_trans: "act_step s s' \<Longrightarrow> act_step s' s'' \<Longrightarrow> act_step s s''"
  by (auto simp: act_step_def act_list_def)

lemma list_next_in: "list_next xs p = Some q \<Longrightarrow> q \<in> set xs \<and> p \<in> set xs"
  by (induction xs) (auto split: if_splits list.splits)

lemma list_next_remove1:
  "distinct xs \<Longrightarrow> list_next xs p = Some q \<Longrightarrow> q \<in> set (remove1 p xs)"
  by (induction xs) (auto split: if_splits list.splits dest: list_next_in)

lemma list_first_in: "list_first xs = Some q \<Longrightarrow> q \<in> set xs"
  by (auto simp: list_first_def split: list.splits)

lemma act_step_del: "act_step s (sgv_del_from_active pool s)"
proof (cases "pool \<in> set (act_list s)")
  case False
  then have "Dlist.remove pool (sgv_active_pools_list s) = sgv_active_pools_list s"
    by (simp add: dlist_eq_iff act_list_def remove1_idem)
  with False show ?thesis
    by (auto simp: act_step_def act_inv_def act_list_def sgv_del_from_active_def Let_def
         split: option.splits)
next
  case True
  then have len: "length (remove1 pool (act_list s)) < length (act_list s)"
    by (simp add: length_remove1) (cases "act_list s", auto)
  have "act_inv s \<Longrightarrow> act_inv (sgv_del_from_active pool s)"
    using list_next_remove1[of "act_list s" pool] list_first_in[of "remove1 pool (act_list s)"]
    by (auto simp: act_inv_def act_list_def sgv_del_from_active_def Let_def
         split: option.splits)
  moreover have "length (act_list (sgv_del_from_active pool s)) < length (act_list s)"
    using len by (simp add: act_list_def sgv_del_from_active_def Let_def)
  ultimately show ?thesis by (simp add: act_step_def)
qed

lemma act_step_dec: "act_step s (sgv_dec_cached_entries pool pages s)"
  unfolding sgv_dec_cached_entries_def Let_def
  by (auto intro!: act_step_trans[OF _ act_step_del] act_step_same simp: upd_pool_def)

lemma act_step_purge: "act_step s (uu_sgv_purge_from_cache obj s)"
  unfolding uu_sgv_purge_from_cache_def Let_def
  apply (rule act_step_trans[OF _ act_step_same[where s'="_\<lparr>sgv_pages_total := _\<rparr>"]])
    apply (rule act_step_trans[OF _ act_step_dec])
    apply (rule act_step_same)
     apply (simp_all add: upd_pool_def list_del_recycling_def list_del_sorted_def)
  done

lemma act_step_dtor: "act_step s (sgv_dtor_and_free pf obj s)"
  by (rule act_step_same) (subst dtor_eq, simp)+

lemma act_step_flush_list: "act_step s (sgv_pool_flush_list pf pool i s)"
proof (induction pf pool i s rule: sgv_pool_flush_list.induct)
  case (1 pf pool i s)
  show ?case
  proof (cases "recycling_lists (pool_at s pool) i")
    case Nil
    then show ?thesis by (subst sgv_pool_flush_list.simps) (simp add: act_step_same)
  next
    case (Cons obj rest)
    have "act_step s (sgv_dtor_and_free pf obj (uu_sgv_purge_from_cache obj s))"
      by (rule act_step_trans[OF act_step_purge act_step_dtor])
    from act_step_trans[OF this "1.IH"[OF Cons]] Cons show ?thesis
      by (subst sgv_pool_flush_list.simps) simp
  qed
qed

lemma act_step_flush: "act_step s (sgv_pool_flush pf pool s)"
proof -
  have "act_step s (fold (sgv_pool_flush_list pf pool) is s)" for "is"
  proof (induction "is" arbitrary: s)
    case Nil show ?case by (simp add: act_step_same)
  next
    case (Cons i "is")
    show ?case using act_step_trans[OF act_step_flush_list Cons] by simp
  qed
  then show ?thesis by (simp add: sgv_pool_flush_def)
qed

lemma act_step_put: "act_step s (sgv_pool_put pf pool s)"
  unfolding sgv_pool_put_def sgv_pool_destroy_def sgv_pool_deinit_def Let_def
  apply (clarsimp, intro conjI impI)
   apply (rule act_step_trans[OF _ act_step_same[where s'="_\<lparr>sgv_pools_list := _\<rparr>"]])
     apply (rule act_step_trans[OF _ act_step_flush])
     apply (rule act_step_trans[OF act_step_same act_step_same])
         apply (simp_all add: upd_pool_def act_step_same)
  done


definition list_idx :: "nat list \<Rightarrow> nat \<Rightarrow> nat" where
  "list_idx xs p = length (takeWhile (\<lambda>x. x \<noteq> p) xs)"

lemma list_next_idx:
  "distinct xs \<Longrightarrow> list_next xs p = Some q \<Longrightarrow>
     list_idx xs q = Suc (list_idx xs p) \<and> list_idx xs p < length xs"
proof (induction xs)
  case Nil then show ?case by simp
next
  case (Cons x xs)
  show ?case
  proof (cases "x = p")
    case True
    with Cons.prems show ?thesis by (auto simp: list_idx_def split: list.splits)
  next
    case False
    with Cons.prems have n: "list_next xs p = Some q" by simp
    from list_next_in[OF n] Cons.prems have "x \<noteq> q" by auto
    with Cons.IH[OF _ n] Cons.prems False show ?thesis by (simp add: list_idx_def)
  qed
qed

lemma list_first_idx: "list_first xs = Some p \<Longrightarrow> list_idx xs p = 0"
  by (auto simp: list_first_def list_idx_def split: list.splits)

text \<open>The pool the next round of the shrinker visits, and how far it stands from the list's end.\<close>

definition shrink_pool_sel :: "sgv_state \<Rightarrow> nat option" where
  "shrink_pool_sel s =
     (case sgv_cur_purge_pool s of None \<Rightarrow> list_first (act_list s) | Some p \<Rightarrow> Some p)"

definition shrink_dist :: "sgv_state \<Rightarrow> nat" where
  "shrink_dist s =
     (case shrink_pool_sel s of
        None \<Rightarrow> 0
      | Some p \<Rightarrow> length (act_list s) - list_idx (act_list s) p)"

lemma shrink_round_decreases:
  assumes nr: "0 < nr"
    and sel: "shrink_pool_sel s = Some pool"
    and nexit: "\<not> (list_next (act_list s) pool = None \<and> circle \<and> prev_nr = nr)"
    and sb: "sb = (sgv_pool_get pool s)\<lparr>sgv_cur_purge_pool :=
                (case list_next (act_list s) pool of None \<Rightarrow> list_first (act_list s) | Some q \<Rightarrow> Some q)\<rparr>"
    and r: "r = sgv_shrink_pool pf pool nr after cur_time sb"
    and sc: "sc = sgv_pool_put pf pool (snd r)"
    and c1: "circle_n = (if list_next (act_list s) pool = None then True else circle)"
    and p1: "prev_nr_n = (if list_next (act_list s) pool = None then nr else prev_nr)"
  shows "((pf, after, cur_time, fst r, prev_nr_n, circle_n, sc),
          (pf, after, cur_time, nr, prev_nr, circle, s)) \<in>
         measures [\<lambda>(pf, after, cur_time, nr, prev_nr, circle, s). nat nr,
                   \<lambda>(pf, after, cur_time, nr, prev_nr, circle, s). length (act_list s),
                   \<lambda>(pf, after, cur_time, nr, prev_nr, circle, s). if circle \<and> prev_nr = nr then 0 else 1,
                   \<lambda>(pf, after, cur_time, nr, prev_nr, circle, s). shrink_dist s]"
proof (cases "fst r < nr")
  case True
  with nr show ?thesis by simp
next
  case False
  have le: "fst r \<le> nr" and same: "fst r = nr \<longrightarrow> snd r = sb"
    using shrink_pool_loop_le[of pf pool after cur_time nr 0 sb] r
    by (simp_all add: sgv_shrink_pool_def)
  from False le have eq: "fst r = nr" by simp
  with same have sc': "sc = sgv_pool_put pf pool sb" using sc by simp
  have al2: "act_list sb = act_list s" "sgv_active_pools_list sb = sgv_active_pools_list s"
    by (simp_all add: sb act_list_def sgv_pool_get_def upd_pool_def)
  have cur2: "sgv_cur_purge_pool sb =
      (case list_next (act_list s) pool of None \<Rightarrow> list_first (act_list s) | Some q \<Rightarrow> Some q)"
    by (simp add: sb)
  have inv2: "act_inv sb"
    unfolding act_inv_def al2 cur2
    by (auto split: option.splits dest: list_next_in list_first_in)
  from act_step_put[of sb pf pool] inv2 sc'
  have step: "length (act_list sc) < length (act_list sb) \<or>
      (sgv_active_pools_list sc = sgv_active_pools_list sb \<and> sgv_cur_purge_pool sc = sgv_cur_purge_pool sb)"
    by (simp add: act_step_def)
  show ?thesis
  proof (cases "length (act_list sc) < length (act_list s)")
    case True
    with eq show ?thesis by simp
  next
    case False
    with step al2 have a3: "sgv_active_pools_list sc = sgv_active_pools_list s"
      and c3: "sgv_cur_purge_pool sc = sgv_cur_purge_pool sb" by simp_all
    then have l3: "act_list sc = act_list s" by (simp add: act_list_def)
    show ?thesis
    proof (cases "list_next (act_list s) pool")
      case None
      with nexit c1 p1 eq l3 show ?thesis by auto
    next
      case (Some q)
      have d: "distinct (act_list s)" by (simp add: act_list_def)
      from list_next_idx[OF d Some]
      have i: "list_idx (act_list s) q = Suc (list_idx (act_list s) pool)"
        "list_idx (act_list s) pool < length (act_list s)" by simp_all
      have cur3: "sgv_cur_purge_pool sc = Some q" using c3 Some by (simp add: sb)
      have "shrink_dist sc < shrink_dist s"
        using i sel cur3 l3 by (simp add: shrink_dist_def shrink_pool_sel_def)
      with Some c1 p1 eq l3 show ?thesis by auto
    qed
  qed
qed

termination sgv_shrink_loop
proof (relation "measures [\<lambda>(pf, after, cur_time, nr, prev_nr, circle, s). nat nr,
                   \<lambda>(pf, after, cur_time, nr, prev_nr, circle, s). length (act_list s),
                   \<lambda>(pf, after, cur_time, nr, prev_nr, circle, s). if circle \<and> prev_nr = nr then 0 else 1,
                   \<lambda>(pf, after, cur_time, nr, prev_nr, circle, s). shrink_dist s]", goal_cases)
  case 1
  show ?case by simp
next
  case prems: (2 pf after cur_time nr prev_nr circle s al pool s1 nxt circle1 prev_nr1 next1 s2 r s3)
  show ?case
    by (rule shrink_round_decreases[where pool = pool and sb = s2])
       (use prems in \<open>simp_all add: shrink_pool_sel_def act_list_def cong: option.case_cong\<close>)
qed

declare sgv_shrink_loop.simps [simp del]


subsection \<open>The shrinker and the high-watermark gate\<close>

definition uu_sgv_shrink :: "platform \<Rightarrow> int \<Rightarrow> int \<Rightarrow> sgv_state \<Rightarrow> int \<times> sgv_state" where
  "uu_sgv_shrink pf nr after s = sgv_shrink_loop pf after (jiffies s) nr nr False s"

definition sgv_hiwmk_check :: "platform \<Rightarrow> int \<Rightarrow> sgv_state \<Rightarrow> int \<times> sgv_state" where
  "sgv_hiwmk_check pf pages_to_alloc s =
     (let pages = int32 (pages_to_alloc + sgv_pages_total s)
      in if pages > sgv_hi_wmk s
         then (let pages1 = int32 (pages - sgv_hi_wmk s);
                   s1 = s\<lparr>sgv_releases_on_hiwmk := sgv_releases_on_hiwmk s + 1\<rparr>;
                   r = uu_sgv_shrink pf pages1 0 s1
               in if fst r > 0
                  then (- ENOMEM,
                        (snd r)\<lparr>sgv_releases_on_hiwmk_failed :=
                                   sgv_releases_on_hiwmk_failed (snd r) + 1\<rparr>)
                  else (0, (snd r)\<lparr>sgv_pages_total :=
                                      int32 (sgv_pages_total (snd r) + pages_to_alloc)\<rparr>))
         else (0, s\<lparr>sgv_pages_total := int32 (sgv_pages_total s + pages_to_alloc)\<rparr>))"

definition sgv_hiwmk_uncheck :: "int \<Rightarrow> sgv_state \<Rightarrow> sgv_state" where
  "sgv_hiwmk_uncheck pages s = s\<lparr>sgv_pages_total := sgv_pages_total s - pages\<rparr>"

subsection \<open>Taking an object from a bucket and putting it back\<close>

definition zero_obj :: sgv_pool_obj where
  "zero_obj = \<lparr>obj_addr = 0, order_or_pages = 0, owner_pool = 0, sg_entries = [],
               trans_tbl = None, sg_count = 0, orig_sg = 0, orig_length = 0,
               time_stamp = 0, allocator_priv = 0\<rparr>"

text \<open>\<^verbatim>\<open>list_add_tail\<close> on a list of distinct members, for an entry that is not on it.\<close>

definition list_add_tail :: "nat \<Rightarrow> nat dlist \<Rightarrow> nat dlist" where
  "list_add_tail x xs = Dlist (list_of_dlist xs @ [x])"

lemma list_of_dlist_add_tail [simp, code abstract]:
  "list_of_dlist (list_add_tail x xs) = remdups (list_of_dlist xs @ [x])"
  by (simp add: list_add_tail_def)

definition list_add_tail_active :: "nat \<Rightarrow> sgv_state \<Rightarrow> sgv_state" where
  "list_add_tail_active pool s =
     s\<lparr>sgv_active_pools_list := list_add_tail pool (sgv_active_pools_list s)\<rparr>"

definition sgv_get_obj ::
  "nat \<Rightarrow> int \<Rightarrow> sgv_state \<Rightarrow> sgv_pool_obj option \<times> sgv_state" where
  "sgv_get_obj pool order s =
     (let pages = order_pages order
      in case recycling_lists (pool_at s pool) (nat order) of
           obj # _ \<Rightarrow>
             (let s1 = list_del_sorted obj s;
                  s2 = list_del_recycling obj s1;
                  s3 = upd_pool s2 pool
                         (\<lambda>p. p\<lparr>inactive_cached_pages := inactive_cached_pages p - pages\<rparr>)
              in (Some obj, s3))
         | [] \<Rightarrow>
             (let s1 = (if cached_entries (pool_at s pool) = 0
                        then list_add_tail_active pool s else s);
                  s2 = upd_pool s1 pool
                         (\<lambda>p. p\<lparr>cached_entries := cached_entries p + 1,
                                cached_pages := cached_pages p + pages\<rparr>);
                  r = kmalloc s2
              in case fst r of
                   Some addr \<Rightarrow>
                     (Some (zero_obj\<lparr>obj_addr := addr, order_or_pages := order,
                                     owner_pool := pool\<rparr>),
                      snd r)
                 | None \<Rightarrow> (None, sgv_dec_cached_entries pool pages (snd r))))"

text \<open>
  The walk of \<^verbatim>\<open>sgv_put_obj\<close> over a clustered pool's bucket: the object goes in
  front of the first entry whose \<open>sg_count\<close> is not smaller than its own, or to the
  tail.
\<close>

fun recycling_insert :: "sgv_pool_obj \<Rightarrow> sgv_pool_obj list \<Rightarrow> sgv_pool_obj list" where
  "recycling_insert obj [] = [obj]"
| "recycling_insert obj (tmp # rest) =
     (if sg_count obj \<le> sg_count tmp then obj # tmp # rest
      else tmp # recycling_insert obj rest)"

text \<open>\<^verbatim>\<open>schedule_delayed_work\<close> queues the work unless it is queued already.\<close>

definition schedule_delayed_work :: "int \<Rightarrow> int option \<Rightarrow> int option" where
  "schedule_delayed_work delay w = (case w of None \<Rightarrow> Some delay | Some d \<Rightarrow> Some d)"

text \<open>
  The lists hold values, so the time stamp, which the source writes right after
  linking the object, is written before; it plays no part in where the object goes.
\<close>

definition sgv_put_obj :: "platform \<Rightarrow> sgv_pool_obj \<Rightarrow> sgv_state \<Rightarrow> sgv_state" where
  "sgv_put_obj pf obj s =
     (let pool = owner_pool obj;
          order = nat (order_or_pages obj);
          pages = order_pages (order_or_pages obj);
          obj1 = obj\<lparr>time_stamp := jiffies s\<rparr>;
          s1 = upd_pool s pool
                 (\<lambda>p. p\<lparr>recycling_lists := (recycling_lists p)
                          (order := (if sgv_pool_clustered p
                                     then recycling_insert obj1 (recycling_lists p order)
                                     else obj1 # recycling_lists p order))\<rparr>);
          s2 = upd_pool s1 pool
                 (\<lambda>p. p\<lparr>sorted_recycling_list := sorted_recycling_list p @ [obj1]\<rparr>);
          s3 = upd_pool s2 pool
                 (\<lambda>p. p\<lparr>inactive_cached_pages := inactive_cached_pages p + pages\<rparr>)
      in if \<not> purge_work_scheduled (pool_at s3 pool)
         then upd_pool s3 pool
                (\<lambda>p. p\<lparr>purge_work_scheduled := True,
                       sgv_purge_work :=
                         schedule_delayed_work (PURGE_INTERVAL pf) (sgv_purge_work p)\<rparr>)
         else s3)"

subsection \<open>Filling an object with pages\<close>

text \<open>
  The page loop of \<^verbatim>\<open>sgv_alloc_sg_entries\<close>; the first argument counts the pages
  still to allocate, and the first component of the result is \<open>False\<close> at
  \<^verbatim>\<open>out_no_mem\<close>.
\<close>

fun sgv_fill_loop ::
  "platform \<Rightarrow> sgv_clustering_types \<Rightarrow> nat \<Rightarrow> scatterlist list \<Rightarrow> nat \<Rightarrow> int
     \<Rightarrow> sgv_state \<Rightarrow> bool \<times> scatterlist list \<times> nat \<times> sgv_state" where
  "sgv_fill_loop pf ct 0 sg sg_cnt merged s = (True, sg, sg_cnt, s)"
| "sgv_fill_loop pf ct (Suc n) sg sg_cnt merged s =
     (case sgv_alloc_sys_pages pf s sg sg_cnt of
        (None, sg1, s1) \<Rightarrow> (False, sg1, sg_cnt, s1)
      | (Some page, sg1, s1) \<Rightarrow>
          (case (if ct = sgv_full_clustering
                 then sgv_check_full_clustering pf sg1 sg_cnt merged
                 else if ct = sgv_tail_clustering
                 then sgv_check_tail_clustering pf sg1 sg_cnt merged
                 else (- 1, sg1)) of
             (merged1, sg2) \<Rightarrow>
               sgv_fill_loop pf ct n sg2 (if merged1 = - 1 then sg_cnt + 1 else sg_cnt)
                 merged1 s1))"

text \<open>
  The loop that writes the translation table: \<open>is\<close> are the entry indices still to
  visit and \<open>pg\<close> is the running page index. The code writes
  \<^verbatim>\<open>trans_tbl[pg++]\<close> unchecked; an update past the end of a list does nothing, so
  the model says nothing of a loop whose page index leaves the table.
\<close>

fun trans_tbl_loop ::
  "platform \<Rightarrow> scatterlist list \<Rightarrow> nat list \<Rightarrow> nat \<Rightarrow> trans_tbl_ent list
     \<Rightarrow> trans_tbl_ent list" where
  "trans_tbl_loop pf sg [] pg tt = tt"
| "trans_tbl_loop pf sg (i # is) pg tt =
     (let n = len_to_pages pf (sg_length (sg ! i));
          tt1 = tt[i := (tt ! i)\<lparr>pg_count := pg\<rparr>];
          tt2 = fold (\<lambda>k t. t[k := (t ! k)\<lparr>sg_num := i + 1\<rparr>]) [pg..<pg + n] tt1
      in trans_tbl_loop pf sg is (pg + n) tt2)"

definition sgv_alloc_sg_entries ::
  "platform \<Rightarrow> scatterlist list \<Rightarrow> int \<Rightarrow> sgv_clustering_types
     \<Rightarrow> trans_tbl_ent list option \<Rightarrow> sgv_state
     \<Rightarrow> int \<times> scatterlist list \<times> trans_tbl_ent list option \<times> sgv_state" where
  "sgv_alloc_sg_entries pf sg pages ct tt s =
     (case sgv_fill_loop pf ct (nat pages) sg 0 (- 1) s of
        (False, sg1, sg_cnt, s1) \<Rightarrow>
          (0, sg1, tt, sgv_free_sys_sg_entries pf s1 sg1 (int sg_cnt))
      | (True, sg1, sg_cnt, s1) \<Rightarrow>
          (int sg_cnt, sg1,
           (case tt of
              None \<Rightarrow> None
            | Some t \<Rightarrow>
                if ct \<noteq> sgv_no_clustering
                then Some (trans_tbl_loop pf sg1 [0..<nat pages] 0 t)
                else Some t),
           s1))"

definition sg_init_table :: "int \<Rightarrow> scatterlist list" where
  "sg_init_table n = replicate (nat n) sg_clear"

text \<open>
  A translation table is not cleared when it is set up: the source relies on
  \<^verbatim>\<open>sgv_alloc_sg_entries\<close> rewriting it. The model starts it from zeros.
\<close>

definition trans_tbl_init :: "int \<Rightarrow> trans_tbl_ent list" where
  "trans_tbl_init n = replicate (nat n) \<lparr>sg_num = 0, pg_count = 0\<rparr>"

definition sgv_alloc_arrays ::
  "sgv_pool_obj \<Rightarrow> int \<Rightarrow> int \<Rightarrow> sgv_state \<Rightarrow> int \<times> sgv_pool_obj \<times> sgv_state" where
  "sgv_alloc_arrays obj pages_to_alloc order s =
     (case kmalloc s of
        (None, s1) \<Rightarrow> (- ENOMEM, obj\<lparr>sg_entries := []\<rparr>, s1)
      | (Some a, s1) \<Rightarrow>
          (let obj1 = obj\<lparr>sg_entries := sg_init_table pages_to_alloc\<rparr>
           in if sgv_pool_clustered (pool_at s1 (owner_pool obj))
              then (if order \<le> sgv_max_trans_order s1
                    then (0, obj1\<lparr>trans_tbl := Some (trans_tbl_init pages_to_alloc)\<rparr>, s1)
                    else (case kmalloc s1 of
                            (None, s2) \<Rightarrow>
                              (- ENOMEM, obj1\<lparr>trans_tbl := None, sg_entries := []\<rparr>, s2)
                          | (Some b, s2) \<Rightarrow>
                              (0, obj1\<lparr>trans_tbl := Some (trans_tbl_init pages_to_alloc)\<rparr>,
                               s2)))
              else (0, obj1, s1)))"


subsection \<open>Allocation from a pool\<close>

text \<open>
  \<^verbatim>\<open>get_order\<close> of the kernel: the least order whose \<^verbatim>\<open>PAGE_SIZE << order\<close>
  holds \<open>sz\<close> bytes, computed as the kernel does, by counting the bits of
  \<^verbatim>\<open>(sz - 1) >> PAGE_SHIFT\<close>.
\<close>

fun bit_length :: "nat \<Rightarrow> nat" where
  "bit_length n = (if n = 0 then 0 else Suc (bit_length (n div 2)))"

definition get_order :: "platform \<Rightarrow> nat \<Rightarrow> int" where
  "get_order pf sz = int (bit_length ((sz - 1) div PAGE_SIZE pf))"

text \<open>The flag bits of the \<open>flags\<close> argument, as a set.\<close>

datatype sgv_alloc_flag =
  SCST_POOL_ALLOC_NO_CACHED
| SCST_POOL_NO_ALLOC_ON_CACHE_MISS
| SCST_POOL_RETURN_OBJ_ON_ALLOC_FAIL

text \<open>
  What a call leaves behind: the returned vector (\<open>None\<close> is \<^verbatim>\<open>NULL\<close>), the values
  of \<^verbatim>\<open>*count\<close> and \<^verbatim>\<open>*sgv\<close>, the quota and the state.
\<close>

record sgv_alloc_res =
  res_sg :: "scatterlist list option"
  res_count :: int
  res_sgv :: "sgv_pool_obj option"
  res_mem_lim :: scst_mem_lim
  res_state :: sgv_state

text \<open>
  The exit labels of \<^verbatim>\<open>sgv_pool_alloc\<close>, each falling through to the next as in
  the source. Their arguments are the locals they read: \<open>pages_to_alloc\<close>,
  \<open>hiwmk_checked\<close>, \<open>allowed_mem_checked\<close>, then \<^verbatim>\<open>*count\<close> and \<^verbatim>\<open>*sgv\<close>.
\<close>

definition out_uncheck ::
  "int \<Rightarrow> bool \<Rightarrow> bool \<Rightarrow> int \<Rightarrow> sgv_pool_obj option \<Rightarrow> scst_mem_lim \<Rightarrow> sgv_state
     \<Rightarrow> sgv_alloc_res" where
  "out_uncheck pages_to_alloc hiwmk_checked allowed_mem_checked cnt sgv mem_lim s =
     \<lparr>res_sg = None, res_count = cnt, res_sgv = sgv,
      res_mem_lim = (if allowed_mem_checked
                     then sgv_uncheck_allowed_mem mem_lim pages_to_alloc else mem_lim),
      res_state = (if hiwmk_checked then sgv_hiwmk_uncheck pages_to_alloc s else s)\<rparr>"

definition out_fail ::
  "int \<Rightarrow> bool \<Rightarrow> bool \<Rightarrow> scst_mem_lim \<Rightarrow> sgv_state \<Rightarrow> sgv_alloc_res" where
  "out_fail pages_to_alloc hiwmk_checked allowed_mem_checked mem_lim s =
     out_uncheck pages_to_alloc hiwmk_checked allowed_mem_checked 0 None mem_lim s"

definition out_fail_free ::
  "nat \<Rightarrow> bool \<Rightarrow> int \<Rightarrow> bool \<Rightarrow> bool \<Rightarrow> scst_mem_lim \<Rightarrow> sgv_state \<Rightarrow> sgv_alloc_res" where
  "out_fail_free pool cache pages_to_alloc hiwmk_checked allowed_mem_checked mem_lim s =
     out_fail pages_to_alloc hiwmk_checked allowed_mem_checked mem_lim
       (if cache then sgv_dec_cached_entries pool pages_to_alloc s else s)"

text \<open>The arrays freed at this label are metadata, of which the state keeps no trace.\<close>

definition out_fail_free_sg_entries ::
  "nat \<Rightarrow> bool \<Rightarrow> int \<Rightarrow> bool \<Rightarrow> bool \<Rightarrow> scst_mem_lim \<Rightarrow> sgv_state \<Rightarrow> sgv_alloc_res" where
  "out_fail_free_sg_entries pool cache pages_to_alloc hiwmk_checked allowed_mem_checked
       mem_lim s =
     out_fail_free pool cache pages_to_alloc hiwmk_checked allowed_mem_checked mem_lim s"

definition out_return2 ::
  "int \<Rightarrow> bool \<Rightarrow> bool \<Rightarrow> sgv_pool_obj option \<Rightarrow> scst_mem_lim \<Rightarrow> sgv_state
     \<Rightarrow> sgv_alloc_res" where
  "out_return2 pages_to_alloc hiwmk_checked allowed_mem_checked sgv mem_lim s =
     out_uncheck pages_to_alloc hiwmk_checked allowed_mem_checked pages_to_alloc sgv mem_lim s"

definition out_return1 ::
  "sgv_pool_obj \<Rightarrow> int \<Rightarrow> bool \<Rightarrow> bool \<Rightarrow> scst_mem_lim \<Rightarrow> sgv_state \<Rightarrow> sgv_alloc_res" where
  "out_return1 obj pages_to_alloc hiwmk_checked allowed_mem_checked mem_lim s =
     out_return2 pages_to_alloc hiwmk_checked allowed_mem_checked (Some obj) mem_lim s"

definition out_return ::
  "nat \<Rightarrow> nat \<Rightarrow> sgv_pool_obj \<Rightarrow> int \<Rightarrow> bool \<Rightarrow> bool \<Rightarrow> scst_mem_lim \<Rightarrow> sgv_state
     \<Rightarrow> sgv_alloc_res" where
  "out_return pool priv obj pages_to_alloc hiwmk_checked allowed_mem_checked mem_lim s =
     out_return1 (obj\<lparr>allocator_priv := priv, owner_pool := pool\<rparr>)
       pages_to_alloc hiwmk_checked allowed_mem_checked mem_lim s"

text \<open>
  From the label \<^verbatim>\<open>success\<close> to the return. \<open>cache\<close> tells whether the local
  \<^verbatim>\<open>cache\<close> is set (the caches of an initialised pool are never \<^verbatim>\<open>NULL\<close>).
\<close>

definition alloc_success ::
  "platform \<Rightarrow> nat \<Rightarrow> nat \<Rightarrow> bool \<Rightarrow> bool \<Rightarrow> int \<Rightarrow> int \<Rightarrow> sgv_pool_obj
     \<Rightarrow> scst_mem_lim \<Rightarrow> sgv_state \<Rightarrow> sgv_alloc_res" where
  "alloc_success pf pool sz no_cached cache order pages obj mem_lim s =
     (let clustered = sgv_pool_clustered (pool_at s pool);
          cnt = (if cache
                 then (if clustered
                       then int (sg_num (the (trans_tbl obj) ! nat (pages - 1)))
                       else pages)
                 else sg_count obj);
          sg = cnt - 1;
          obj1 = (if cache
                  then obj\<lparr>orig_sg := sg,
                           orig_length := sg_length (sg_entries obj ! nat sg)\<rparr>
                  else obj);
          obj2 = (if cache \<and> clustered
                  then obj1\<lparr>sg_entries :=
                         sg_set_length (sg_entries obj1) (nat sg)
                           (nat (pages - int (pg_count (the (trans_tbl obj1) ! nat sg)))
                              * PAGE_SIZE pf)\<rparr>
                  else obj1);
          s1 = upd_pool s pool
                 (\<lambda>p. if cache
                      then p\<lparr>cache_acc_total_alloc := (cache_acc_total_alloc p)
                              (nat order := cache_acc_total_alloc p (nat order) + 1)\<rparr>
                      else if no_cached then p\<lparr>other_alloc := other_alloc p + 1\<rparr>
                      else p\<lparr>big_alloc := big_alloc p + 1\<rparr>);
          obj3 = (if sz mod PAGE_SIZE pf \<noteq> 0
                  then obj2\<lparr>sg_entries :=
                         sg_set_length (sg_entries obj2) (nat (cnt - 1))
                           (sg_length (sg_entries obj2 ! nat (cnt - 1))
                              - (PAGE_SIZE pf - sz mod PAGE_SIZE pf))\<rparr>
                  else obj2)
      in \<lparr>res_sg = Some (sg_entries obj3), res_count = cnt, res_sgv = Some obj3,
          res_mem_lim = mem_lim, res_state = s1\<rparr>)"

text \<open>
  From the call of \<^verbatim>\<open>sgv_alloc_sg_entries\<close> on: every path that reaches it has
  charged the quota and passed the watermark gate.
\<close>

definition alloc_fill ::
  "platform \<Rightarrow> nat \<Rightarrow> nat \<Rightarrow> sgv_alloc_flag set \<Rightarrow> bool \<Rightarrow> int \<Rightarrow> int \<Rightarrow> int
     \<Rightarrow> sgv_pool_obj \<Rightarrow> scst_mem_lim \<Rightarrow> sgv_state \<Rightarrow> sgv_alloc_res" where
  "alloc_fill pf pool sz flags cache order pages pages_to_alloc obj mem_lim s =
     (let no_cached = (SCST_POOL_ALLOC_NO_CACHED \<in> flags)
      in case sgv_alloc_sg_entries pf (sg_entries obj) pages_to_alloc
                (clustering_type (pool_at s pool)) (trans_tbl obj) s of
           (cnt, sg1, tt1, s1) \<Rightarrow>
             (let obj1 = obj\<lparr>sg_count := cnt, sg_entries := sg1, trans_tbl := tt1\<rparr>
              in if cnt \<le> 0
                 then (let obj2 = obj1\<lparr>sg_count := 0\<rparr>
                       in if SCST_POOL_RETURN_OBJ_ON_ALLOC_FAIL \<in> flags \<and> cache
                          then out_return1 obj2 pages_to_alloc True True mem_lim s1
                          else out_fail_free_sg_entries pool cache pages_to_alloc True True
                                 mem_lim s1)
                 else (let s2 = upd_pool s1 pool
                                  (\<lambda>p. if cache
                                       then p\<lparr>cache_acc_merged := (cache_acc_merged p)
                                               (nat order := cache_acc_merged p (nat order)
                                                              + (pages_to_alloc - cnt))\<rparr>
                                       else if no_cached
                                       then p\<lparr>other_pages := other_pages p + pages_to_alloc,
                                              other_merged := other_merged p
                                                               + (pages_to_alloc - cnt)\<rparr>
                                       else p\<lparr>big_pages := big_pages p + pages_to_alloc,
                                              big_merged := big_merged p
                                                             + (pages_to_alloc - cnt)\<rparr>)
                       in alloc_success pf pool sz no_cached cache order pages obj1
                            mem_lim s2)))"

text \<open>The branch for an object the caller supplies (\<^verbatim>\<open>*sgv != NULL\<close>).\<close>

definition alloc_supplied ::
  "platform \<Rightarrow> nat \<Rightarrow> nat \<Rightarrow> sgv_alloc_flag set \<Rightarrow> int \<Rightarrow> int \<Rightarrow> sgv_pool_obj
     \<Rightarrow> scst_mem_lim \<Rightarrow> sgv_state \<Rightarrow> sgv_alloc_res" where
  "alloc_supplied pf pool sz flags order pages obj mem_lim s =
     (let pages_to_alloc = order_pages order
      in case sgv_check_allowed_mem mem_lim pages_to_alloc of
           (False, m1) \<Rightarrow>
             out_fail_free_sg_entries pool True pages_to_alloc False False m1 s
         | (True, m1) \<Rightarrow>
             (case sgv_hiwmk_check pf pages_to_alloc s of
                (r, s1) \<Rightarrow>
                  if r \<noteq> 0
                  then out_fail_free_sg_entries pool True pages_to_alloc False True m1 s1
                  else alloc_fill pf pool sz flags True order pages pages_to_alloc obj
                         m1 s1))"

text \<open>
  The branch for a bucket (\<^verbatim>\<open>order < SGV_POOL_ELEMENTS\<close> and no \<^verbatim>\<open>NO_CACHED\<close>),
  in two parts: what follows the trace \<^verbatim>\<open>"Brand new obj"\<close>, for an object without
  pages, and the branch from its start.
\<close>

definition alloc_brand_new ::
  "platform \<Rightarrow> nat \<Rightarrow> nat \<Rightarrow> sgv_alloc_flag set \<Rightarrow> nat \<Rightarrow> int \<Rightarrow> int \<Rightarrow> sgv_pool_obj
     \<Rightarrow> scst_mem_lim \<Rightarrow> sgv_state \<Rightarrow> sgv_alloc_res" where
  "alloc_brand_new pf pool sz flags priv order pages obj m1 s1 =
     (let pages_to_alloc = order_pages order
      in case (if order \<le> sgv_max_local_order s1
               then (0,
                     obj\<lparr>sg_entries := sg_init_table pages_to_alloc,
                         trans_tbl :=
                           (if sgv_pool_clustered (pool_at s1 pool)
                            then Some (trans_tbl_init pages_to_alloc)
                            else trans_tbl obj)\<rparr>,
                     s1)
               else sgv_alloc_arrays obj pages_to_alloc order s1) of
           (rc, obj1, s2) \<Rightarrow>
             if rc \<noteq> 0
             then out_fail_free pool True pages_to_alloc False True m1 s2
             else if SCST_POOL_NO_ALLOC_ON_CACHE_MISS \<in> flags
                     \<and> SCST_POOL_RETURN_OBJ_ON_ALLOC_FAIL \<in> flags
             then out_return pool priv obj1 pages_to_alloc False True m1 s2
             else
               (case sgv_hiwmk_check pf pages_to_alloc s2 of
                  (r, s3) \<Rightarrow>
                    if r \<noteq> 0
                    then out_fail_free_sg_entries pool True pages_to_alloc
                           False True m1 s3
                    else alloc_fill pf pool sz flags True order pages
                           pages_to_alloc (obj1\<lparr>allocator_priv := priv\<rparr>)
                           m1 s3))"

definition alloc_cached ::
  "platform \<Rightarrow> nat \<Rightarrow> nat \<Rightarrow> sgv_alloc_flag set \<Rightarrow> nat \<Rightarrow> int \<Rightarrow> int
     \<Rightarrow> scst_mem_lim \<Rightarrow> sgv_state \<Rightarrow> sgv_alloc_res" where
  "alloc_cached pf pool sz flags priv order pages mem_lim s =
     (let pages_to_alloc = order_pages order
      in case sgv_check_allowed_mem mem_lim pages_to_alloc of
           (False, m1) \<Rightarrow> out_fail pages_to_alloc False False m1 s
         | (True, m1) \<Rightarrow>
             (case sgv_get_obj pool order s of
                (None, s1) \<Rightarrow> out_fail pages_to_alloc False True m1 s1
              | (Some obj, s1) \<Rightarrow>
                  if sg_count obj \<noteq> 0
                  then alloc_success pf pool sz
                         (SCST_POOL_ALLOC_NO_CACHED \<in> flags) True order pages obj m1
                         (upd_pool s1 pool
                            (\<lambda>p. p\<lparr>cache_acc_hit_alloc := (cache_acc_hit_alloc p)
                                    (nat order := cache_acc_hit_alloc p (nat order) + 1)\<rparr>))
                  else if SCST_POOL_NO_ALLOC_ON_CACHE_MISS \<in> flags
                          \<and> SCST_POOL_RETURN_OBJ_ON_ALLOC_FAIL \<notin> flags
                  then out_fail_free pool True pages_to_alloc False True m1 s1
                  else alloc_brand_new pf pool sz flags priv order pages obj m1 s1))"

text \<open>The branch for a big or uncached object.\<close>

definition alloc_big ::
  "platform \<Rightarrow> nat \<Rightarrow> nat \<Rightarrow> sgv_alloc_flag set \<Rightarrow> nat \<Rightarrow> int \<Rightarrow> int
     \<Rightarrow> scst_mem_lim \<Rightarrow> sgv_state \<Rightarrow> sgv_alloc_res" where
  "alloc_big pf pool sz flags priv order pages mem_lim s =
     (let pages_to_alloc = pages
      in case sgv_check_allowed_mem mem_lim pages_to_alloc of
           (False, m1) \<Rightarrow> out_fail pages_to_alloc False False m1 s
         | (True, m1) \<Rightarrow>
             if SCST_POOL_NO_ALLOC_ON_CACHE_MISS \<in> flags
             then out_return2 pages_to_alloc False True None m1 s
             else
               (case kmalloc s of
                  (None, s1) \<Rightarrow> out_fail pages_to_alloc False True m1 s1
                | (Some addr, s1) \<Rightarrow>
                    (let obj = zero_obj\<lparr>obj_addr := addr, owner_pool := pool,
                                 order_or_pages := - pages_to_alloc,
                                 allocator_priv := priv,
                                 sg_entries := sg_init_table pages\<rparr>
                     in case sgv_hiwmk_check pf pages_to_alloc s1 of
                          (r, s2) \<Rightarrow>
                            if r \<noteq> 0
                            then out_fail_free_sg_entries pool False pages_to_alloc
                                   False True m1 s2
                            else alloc_fill pf pool sz flags False order pages
                                   pages_to_alloc obj m1 s2)))"

text \<open>
  \<^verbatim>\<open>sgv_pool_alloc\<close>. The arguments \<open>cnt\<close> and \<open>sgv\<close> are what \<^verbatim>\<open>*count\<close> and
  \<^verbatim>\<open>*sgv\<close> hold on entry; of \<open>gfp_mask\<close> only the \<^verbatim>\<open>__GFP_NOFAIL\<close> bit is read.
  The result \<open>None\<close> is the kernel \<^verbatim>\<open>BUG\<close> of \<^verbatim>\<open>sBUG_ON\<close>.
\<close>

definition sgv_pool_alloc ::
  "platform \<Rightarrow> nat \<Rightarrow> nat \<Rightarrow> bool \<Rightarrow> sgv_alloc_flag set \<Rightarrow> int \<Rightarrow> sgv_pool_obj option
     \<Rightarrow> scst_mem_lim \<Rightarrow> nat \<Rightarrow> sgv_state \<Rightarrow> sgv_alloc_res option" where
  "sgv_pool_alloc pf pool sz gfp_nofail flags cnt sgv mem_lim priv s =
     (if sz = 0
      then Some \<lparr>res_sg = None, res_count = cnt, res_sgv = sgv,
                 res_mem_lim = mem_lim, res_state = s\<rparr>
      else if gfp_nofail then None
      else
        (let pages = int ((sz + PAGE_SIZE pf - 1) div PAGE_SIZE pf);
             order = get_order pf sz
         in case sgv of
              Some obj \<Rightarrow> Some (alloc_supplied pf pool sz flags order pages obj mem_lim s)
            | None \<Rightarrow>
                if order < SGV_POOL_ELEMENTS pf \<and> SCST_POOL_ALLOC_NO_CACHED \<notin> flags
                then Some (alloc_cached pf pool sz flags priv order pages mem_lim s)
                else Some (alloc_big pf pool sz flags priv order pages mem_lim s)))"

definition sgv_get_priv :: "sgv_pool_obj \<Rightarrow> nat" where
  "sgv_get_priv obj = allocator_priv obj"

definition sgv_pool_free ::
  "platform \<Rightarrow> sgv_pool_obj \<Rightarrow> scst_mem_lim \<Rightarrow> sgv_state \<Rightarrow> scst_mem_lim \<times> sgv_state" where
  "sgv_pool_free pf obj mem_lim s =
     (if order_or_pages obj \<ge> 0
      then (let obj1 = obj\<lparr>sg_entries :=
                         sg_set_length (sg_entries obj) (nat (orig_sg obj)) (orig_length obj)\<rparr>;
                pages = (if sg_count obj \<noteq> 0 then order_pages (order_or_pages obj) else 0);
                s1 = sgv_put_obj pf obj1 s
            in (sgv_uncheck_allowed_mem mem_lim pages, s1))
      else (let s1 = sgv_free_sys_sg_entries pf s (sg_entries obj) (sg_count obj);
                pages = (if sg_count obj \<noteq> 0 then - order_or_pages obj else 0);
                s2 = sgv_hiwmk_uncheck pages s1
            in (sgv_uncheck_allowed_mem mem_lim pages, s2)))"

subsection \<open>The uncached helper\<close>

text \<open>
  \<^verbatim>\<open>scst_alloc\<close> returns the vector and the value of \<^verbatim>\<open>*count\<close>; \<open>cnt\<close> is what
  \<^verbatim>\<open>*count\<close> holds on entry. the size is an \<^verbatim>\<open>int\<close>.
\<close>

definition scst_alloc ::
  "platform \<Rightarrow> int \<Rightarrow> bool \<Rightarrow> int \<Rightarrow> sgv_state
     \<Rightarrow> scatterlist list option \<times> int \<times> sgv_state" where
  "scst_alloc pf sz gfp_nofail cnt s =
     (let pages = sz div int (PAGE_SIZE pf)
                    + (if sz mod int (PAGE_SIZE pf) \<noteq> 0 then 1 else 0);
          no_fail = gfp_nofail;
          s0 = s\<lparr>sgv_other_total_alloc := sgv_other_total_alloc s + 1\<rparr>
      in case sgv_hiwmk_check pf pages s0 of
           (r, s1) \<Rightarrow>
             if r \<noteq> 0 \<and> \<not> no_fail then (None, cnt, s1)
             else
               (let s2 = (if r \<noteq> 0 then sgv_hiwmk_uncheck (- pages) s1 else s1)
                in case kmalloc s2 of
                     (None, s3) \<Rightarrow>
                       (None, cnt, if \<not> no_fail then sgv_hiwmk_uncheck pages s3 else s3)
                   | (Some a, s3) \<Rightarrow>
                       (case sgv_alloc_sg_entries pf (sg_init_table pages) pages
                               sgv_no_clustering None s3 of
                          (cnt1, sg1, tt1, s4) \<Rightarrow>
                            if cnt1 \<le> 0
                            then (None, cnt1,
                                  if \<not> no_fail then sgv_hiwmk_uncheck pages s4 else s4)
                            else (Some sg1, cnt1, s4))))"

definition scst_free :: "platform \<Rightarrow> scatterlist list \<Rightarrow> int \<Rightarrow> sgv_state \<Rightarrow> sgv_state" where
  "scst_free pf sg cnt s =
     sgv_free_sys_sg_entries pf (sgv_hiwmk_uncheck cnt s) sg cnt"

subsection \<open>The purge worker\<close>

function sgv_purge_work_loop :: "platform \<Rightarrow> nat \<Rightarrow> ulong \<Rightarrow> sgv_state \<Rightarrow> sgv_state" where
  "sgv_purge_work_loop pf pool cur_time s =
     (case sorted_recycling_list (pool_at s pool) of
        [] \<Rightarrow> s
      | obj # _ \<Rightarrow>
          (let r = sgv_purge_from_cache obj (PURGE_TIME_AFTER pf) cur_time s
           in if fst r
              then sgv_purge_work_loop pf pool cur_time (sgv_dtor_and_free pf obj (snd r))
              else upd_pool s pool
                     (\<lambda>p. p\<lparr>sgv_purge_work :=
                              schedule_delayed_work (PURGE_INTERVAL pf) (sgv_purge_work p),
                            purge_work_scheduled := True\<rparr>)))"
  by pat_completeness auto

termination sgv_purge_work_loop
  apply (relation "measure (\<lambda>(pf, pool, cur_time, s).
                     length (sorted_recycling_list (pool_at s pool)))")
   apply simp
  apply (simp add: sgv_purge_from_cache_def sorted_after_dtor sorted_after_purge
           split: if_splits)
  done

declare sgv_purge_work_loop.simps [simp del]

definition sgv_purge_work_fn :: "platform \<Rightarrow> nat \<Rightarrow> sgv_state \<Rightarrow> sgv_state" where
  "sgv_purge_work_fn pf pool s =
     sgv_purge_work_loop pf pool (jiffies s)
       (upd_pool s pool (\<lambda>p. p\<lparr>purge_work_scheduled := False\<rparr>))"


section \<open>A booted system, for concrete runs\<close>

text \<open>
  A pool as \<^verbatim>\<open>sgv_pool_init\<close> leaves it, and the state after
  \<^verbatim>\<open>scst_sgv_pools_init\<close>: the three static pools \<^verbatim>\<open>sgv_norm_pool\<close> (address 10),
  \<^verbatim>\<open>sgv_norm_clust_pool\<close> (address 20, full clustering) and \<^verbatim>\<open>sgv_dma_pool\<close>
  (address 30), the watermarks as given, nothing allocated. The two \<open>max\<close> orders are
  what \<^verbatim>\<open>sgv_evaluate_local_order\<close> computes from structure sizes, here for a
  64-bit build with 4 KiB pages.
\<close>

definition fresh_pool :: "sgv_clustering_types \<Rightarrow> sgv_pool" where
  "fresh_pool ct =
     \<lparr>clustering_type = ct, recycling_lists = (\<lambda>i. []), sorted_recycling_list = [],
      cached_entries = 0, cached_pages = 0, inactive_cached_pages = 0,
      purge_work_scheduled = False, sgv_purge_work = None, sgv_pool_ref = 1,
      cache_acc_total_alloc = (\<lambda>i. 0), cache_acc_hit_alloc = (\<lambda>i. 0),
      cache_acc_merged = (\<lambda>i. 0), big_alloc = 0, big_pages = 0, big_merged = 0,
      other_alloc = 0, other_pages = 0, other_merged = 0\<rparr>"

definition boot_state :: "int \<Rightarrow> int \<Rightarrow> sgv_state" where
  "boot_state hi lo =
     \<lparr>sgv_pages_total = 0, sgv_hi_wmk = hi, sgv_lo_wmk = lo,
      sgv_max_local_order = 6, sgv_max_trans_order = 9,
      sgv_cur_purge_pool = None, sgv_active_pools_list = Dlist.empty,
      sgv_pools_list = [10, 20, 30], sgv_releases_on_hiwmk = 0,
      sgv_releases_on_hiwmk_failed = 0, sgv_other_total_alloc = 0,
      pool_at = (\<lambda>a. if a = 20 then fresh_pool sgv_full_clustering
                      else fresh_pool sgv_no_clustering),
      jiffies = 0, page_src = [], kmalloc_src = [], pages_live = {#}\<rparr>"

definition pf_4k :: platform where
  "pf_4k = \<lparr>PAGE_SHIFT = 12, HZ = 100, SGV_POOL_ELEMENTS = 11\<rparr>"

section \<open>32-bit arithmetic\<close>

lemma int32_id: "is_int32 x \<Longrightarrow> int32 x = x"
  by (simp add: int32_def is_int32_def INT_MIN_def INT_MAX_def)

lemma is_int32_int32: "is_int32 (int32 x)"
  by (simp add: int32_def is_int32_def INT_MIN_def INT_MAX_def)

lemma int32_add_sub: "is_int32 a \<Longrightarrow> int32 (int32 (a + n) - n) = a"
proof -
  assume a: "is_int32 a"
  have "int32 (int32 (a + n) - n) = int32 a"
    unfolding int32_def by (simp add: mod_diff_left_eq algebra_simps)
  then show ?thesis using a by (simp add: int32_id)
qed

section \<open>The quota (claim C2)\<close>

text \<open>
  Claim C2. A charge of \<open>n\<close> pages adds \<open>n\<close> to \<open>alloced_pages\<close>; when the
  result exceeds \<open>max_allowed_pages\<close> the \<open>n\<close> pages are subtracted again and the
  charge fails, so a failed charge leaves the quota as it was. The result is the sum as
  the 32-bit counter holds it, which is the sum itself whenever that fits. Uncharging
  subtracts \<open>n\<close>, as long as the difference fits. With a ceiling of 10 pages, a
  charge of 9 succeeds and a further charge of 2 fails and leaves 9 pages charged.
\<close>

theorem quota_charge:
  assumes counter: "is_int32 (alloced_pages m)"
  shows "sgv_check_allowed_mem m n =
           (if int32 (alloced_pages m + n) > max_allowed_pages m then (False, m)
            else (True, m\<lparr>alloced_pages := int32 (alloced_pages m + n)\<rparr>))
       \<and> (is_int32 (alloced_pages m + n) \<longrightarrow>
            sgv_check_allowed_mem m n =
              (if alloced_pages m + n > max_allowed_pages m then (False, m)
               else (True, m\<lparr>alloced_pages := alloced_pages m + n\<rparr>)))
       \<and> (is_int32 (alloced_pages m - n) \<longrightarrow>
            sgv_uncheck_allowed_mem m n = m\<lparr>alloced_pages := alloced_pages m - n\<rparr>)
       \<and> sgv_check_allowed_mem \<lparr>alloced_pages = 0, max_allowed_pages = 10\<rparr> 9
            = (True, \<lparr>alloced_pages = 9, max_allowed_pages = 10\<rparr>)
       \<and> sgv_check_allowed_mem \<lparr>alloced_pages = 9, max_allowed_pages = 10\<rparr> 2
            = (False, \<lparr>alloced_pages = 9, max_allowed_pages = 10\<rparr>)"
proof -
  have a: "sgv_check_allowed_mem m n =
           (if int32 (alloced_pages m + n) > max_allowed_pages m then (False, m)
            else (True, m\<lparr>alloced_pages := int32 (alloced_pages m + n)\<rparr>))"
    using int32_add_sub[OF counter, of n]
    by (simp add: sgv_check_allowed_mem_def Let_def)
  have b: "sgv_check_allowed_mem \<lparr>alloced_pages = 0, max_allowed_pages = 10\<rparr> 9
            = (True, \<lparr>alloced_pages = 9, max_allowed_pages = 10\<rparr>)"
    by (simp add: sgv_check_allowed_mem_def Let_def int32_def)
  have c: "sgv_check_allowed_mem \<lparr>alloced_pages = 9, max_allowed_pages = 10\<rparr> 2
            = (False, \<lparr>alloced_pages = 9, max_allowed_pages = 10\<rparr>)"
    by (simp add: sgv_check_allowed_mem_def Let_def int32_def)
  show ?thesis
    using a b c by (simp add: int32_id sgv_uncheck_allowed_mem_def)
qed

text \<open>
  A quota of \<open>INT_MAX\<close> pages, 9 of them charged: a charge of 2 more is granted, and
  the two readings of the sum agree.
\<close>

theorem quota_charge_witness:
  "is_int32 (alloced_pages \<lparr>alloced_pages = 9, max_allowed_pages = INT_MAX\<rparr>)
   \<and> is_int32 (alloced_pages \<lparr>alloced_pages = 9, max_allowed_pages = INT_MAX\<rparr> + 2)
   \<and> is_int32 (alloced_pages \<lparr>alloced_pages = 9, max_allowed_pages = INT_MAX\<rparr> - 2)
   \<and> sgv_check_allowed_mem \<lparr>alloced_pages = 9, max_allowed_pages = INT_MAX\<rparr> 2
        = (True, \<lparr>alloced_pages = 11, max_allowed_pages = INT_MAX\<rparr>)
   \<and> sgv_uncheck_allowed_mem \<lparr>alloced_pages = 9, max_allowed_pages = INT_MAX\<rparr> 2
        = \<lparr>alloced_pages = 7, max_allowed_pages = INT_MAX\<rparr>
   \<and> sgv_check_allowed_mem \<lparr>alloced_pages = 9, max_allowed_pages = 10\<rparr> 2
        = (False, \<lparr>alloced_pages = 9, max_allowed_pages = 10\<rparr>)"
proof -
  have r: "is_int32 (alloced_pages \<lparr>alloced_pages = 9, max_allowed_pages = INT_MAX\<rparr>)"
      "is_int32 (alloced_pages \<lparr>alloced_pages = 9, max_allowed_pages = INT_MAX\<rparr> + 2)"
      "is_int32 (alloced_pages \<lparr>alloced_pages = 9, max_allowed_pages = INT_MAX\<rparr> - 2)"
    by (simp_all add: is_int32_def INT_MIN_def INT_MAX_def)
  from quota_charge[OF r(1), of 2] r
  show ?thesis by (simp add: INT_MAX_def int32_def)
qed

text \<open>
  At the end of the range the sum wraps around, as the counter does: with
  \<open>INT_MAX\<close> pages charged under a ceiling of \<open>INT_MAX\<close>, one more page is granted
  and the counter reads \<open>INT_MIN\<close>.
\<close>

lemma quota_charge_wraps:
  "sgv_check_allowed_mem \<lparr>alloced_pages = INT_MAX, max_allowed_pages = INT_MAX\<rparr> 1
     = (True, \<lparr>alloced_pages = INT_MIN, max_allowed_pages = INT_MAX\<rparr>)"
  by (simp add: sgv_check_allowed_mem_def Let_def int32_def INT_MAX_def INT_MIN_def)


section \<open>A request of no bytes (claim C9)\<close>

text \<open>
  Claim C9 says that a request of size 0 returns an empty vector with count 0 and
  charges nothing. The source leaves at once through \<^verbatim>\<open>out\<close>: it returns \<^verbatim>\<open>NULL\<close>
  and writes neither \<^verbatim>\<open>*count\<close> nor \<^verbatim>\<open>*sgv\<close>, so the count the caller reads is
  whatever it held before: 5 in the run below, not 0.
\<close>

theorem alloc_size_zero_count_counterexample:
  "res_count (the (sgv_pool_alloc pf_4k 10 0 False {} 5 None
                     \<lparr>alloced_pages = 0, max_allowed_pages = 10\<rparr> 0 (boot_state 100 50))) = 5
   \<and> res_sg (the (sgv_pool_alloc pf_4k 10 0 False {} 5 None
                     \<lparr>alloced_pages = 0, max_allowed_pages = 10\<rparr> 0 (boot_state 100 50))) = None"
  by (simp add: sgv_pool_alloc_def)

text \<open>
  Claim C9, amended. For every pool, flags, quota and \<open>priv\<close>, a request of size 0
  returns \<^verbatim>\<open>NULL\<close>, leaves \<^verbatim>\<open>*count\<close> and \<^verbatim>\<open>*sgv\<close> as the caller passed them, and
  changes neither the quota nor the state (so nothing is charged on the watermark
  counter either).
\<close>

theorem alloc_size_zero:
  "sgv_pool_alloc pf pool 0 gfp_nofail flags cnt sgv mem_lim priv s =
     Some \<lparr>res_sg = None, res_count = cnt, res_sgv = sgv, res_mem_lim = mem_lim,
            res_state = s\<rparr>"
  by (simp add: sgv_pool_alloc_def)


section \<open>Full clustering (claim C4)\<close>

text \<open>
  The merge rule in the words of the specification, for a candidate entry \<open>e\<close> and
  the new entry \<open>n\<close>; the order in which candidates are tried; and the clusterer
  these define.
\<close>

definition spec_head_merge :: "platform \<Rightarrow> scatterlist \<Rightarrow> scatterlist \<Rightarrow> bool" where
  "spec_head_merge pf e n =
     (page_to_pfn (sg_page n) + 1 = page_to_pfn (sg_page e) \<and> sg_length n = PAGE_SIZE pf)"

definition spec_tail_merge :: "platform \<Rightarrow> scatterlist \<Rightarrow> scatterlist \<Rightarrow> bool" where
  "spec_tail_merge pf e n =
     (page_to_pfn (sg_page e) + sg_length e div PAGE_SIZE pf = page_to_pfn (sg_page n)
      \<and> sg_length e mod PAGE_SIZE pf = 0)"

definition spec_candidates :: "nat \<Rightarrow> int \<Rightarrow> nat list" where
  "spec_candidates cur hint = (if 0 \<le> hint then [nat hint] else []) @ rev [0..<cur]"

definition spec_full_clustering ::
  "platform \<Rightarrow> scatterlist list \<Rightarrow> nat \<Rightarrow> int \<Rightarrow> int \<times> scatterlist list" where
  "spec_full_clustering pf sg cur hint =
     (case find (\<lambda>i. spec_head_merge pf (sg ! i) (sg ! cur)
                      \<or> spec_tail_merge pf (sg ! i) (sg ! cur))
                (spec_candidates cur hint) of
        None \<Rightarrow> (- 1, sg)
      | Some i \<Rightarrow>
          (int i,
           (sg[i := (if spec_head_merge pf (sg ! i) (sg ! cur)
                     then (sg ! i)\<lparr>sg_page := sg_page (sg ! cur),
                                   sg_length := sg_length (sg ! i) + sg_length (sg ! cur)\<rparr>
                     else (sg ! i)\<lparr>sg_length := sg_length (sg ! i) + sg_length (sg ! cur)\<rparr>)])
             [cur := sg_clear]))"

lemma PAGE_SIZE_pos: "0 < PAGE_SIZE pf"
  by (simp add: PAGE_SIZE_def)

lemma full_clustering_test_spec:
  assumes "0 < sg_length (sg ! cur)" "sg_length (sg ! cur) \<le> PAGE_SIZE pf"
  shows "full_clustering_test pf sg cur i =
           (if spec_head_merge pf (sg ! i) (sg ! cur) then Some out_head
            else if spec_tail_merge pf (sg ! i) (sg ! cur) then Some out_tail
            else None)"
proof -
  let ?n = "sg_length (sg ! cur)"
  have whole: "?n mod PAGE_SIZE pf = 0 \<longleftrightarrow> ?n = PAGE_SIZE pf"
    using assms by (cases "?n = PAGE_SIZE pf") auto
  have one: "?n = PAGE_SIZE pf \<Longrightarrow> ?n div PAGE_SIZE pf = 1"
    using PAGE_SIZE_pos[of pf] by simp
  show ?thesis
    unfolding full_clustering_test_def Let_def spec_head_merge_def spec_tail_merge_def whole
    using one by auto
qed

lemma full_clustering_scan_find:
  "full_clustering_scan pf sg cur n =
     (case find (\<lambda>i. full_clustering_test pf sg cur i \<noteq> None) (rev [0..<n]) of
        None \<Rightarrow> None
      | Some i \<Rightarrow> Some (i, the (full_clustering_test pf sg cur i)))"
  by (induction n) (auto split: option.splits)

text \<open>
  Claim C4. In full-clustering mode the entry just filled at index \<open>cur\<close> (one page,
  or part of one) is tested against the hint first and then against the entries
  \<open>cur - 1\<close> down to 0. The first candidate that matches is merged: a head merge when
  the new page's frame number plus one is the candidate's and the new page is whole (the
  candidate takes the new page and grows by its length), a tail merge when the
  candidate ends where the new page begins and its length is page-aligned (the candidate
  grows by the new page's length). The merged index is returned, or -1 when no
  candidate matches; the code computes what \<open>spec_full_clustering\<close> says.
\<close>

theorem sgv_check_full_clustering_spec:
  assumes "0 < sg_length (sg ! cur)" "sg_length (sg ! cur) \<le> PAGE_SIZE pf"
  shows "sgv_check_full_clustering pf sg cur hint = spec_full_clustering pf sg cur hint"
proof -
  let ?P = "\<lambda>i. spec_head_merge pf (sg ! i) (sg ! cur) \<or> spec_tail_merge pf (sg ! i) (sg ! cur)"
  note t = full_clustering_test_spec[OF assms]
  have ne: "(\<lambda>i. full_clustering_test pf sg cur i \<noteq> None) = ?P"
    by (rule ext) (simp add: t)
  have scan: "full_clustering_scan pf sg cur cur =
      (case find ?P (rev [0..<cur]) of None \<Rightarrow> None
       | Some i \<Rightarrow> Some (i, if spec_head_merge pf (sg ! i) (sg ! cur) then out_head else out_tail))"
    unfolding full_clustering_scan_find ne
    by (auto simp: t split: option.splits dest: find_Some_iff[THEN iffD1])
  show ?thesis
  proof (cases "0 \<le> hint \<and> ?P (nat hint)")
    case True
    then show ?thesis
      unfolding sgv_check_full_clustering_def spec_full_clustering_def spec_candidates_def Let_def
      by (auto simp: t)
  next
    case False
    then have f: "find ?P (spec_candidates cur hint) = find ?P (rev [0..<cur])"
      by (auto simp: spec_candidates_def)
    from False have h: "(if 0 \<le> hint
                    then (case full_clustering_test pf sg cur (nat hint) of
                            Some l \<Rightarrow> Some (nat hint, l)
                          | None \<Rightarrow> None)
                    else None) = None"
      by (auto simp: t)
    show ?thesis
      unfolding sgv_check_full_clustering_def spec_full_clustering_def Let_def f h scan
      by (auto split: option.splits)
  qed
qed

text \<open>Three entries, the last just filled with the page in front of the first.\<close>

definition sg3 :: "scatterlist list" where
  "sg3 = [\<lparr>sg_page = Some 10, sg_offset = 0, sg_length = 4096\<rparr>,
          \<lparr>sg_page = Some 20, sg_offset = 0, sg_length = 8192\<rparr>,
          \<lparr>sg_page = Some 9, sg_offset = 0, sg_length = 4096\<rparr>]"

theorem sgv_check_full_clustering_spec_witness:
  "0 < sg_length (sg3 ! 2) \<and> sg_length (sg3 ! 2) \<le> PAGE_SIZE pf_4k \<and>
   sgv_check_full_clustering pf_4k sg3 2 (- 1) =
     (0, [\<lparr>sg_page = Some 9, sg_offset = 0, sg_length = 8192\<rparr>,
          \<lparr>sg_page = Some 20, sg_offset = 0, sg_length = 8192\<rparr>,
          sg_clear])"
proof -
  have a: "0 < sg_length (sg3 ! 2)" and b: "sg_length (sg3 ! 2) \<le> PAGE_SIZE pf_4k"
    by (simp_all add: sg3_def PAGE_SIZE_def pf_4k_def)
  have "spec_full_clustering pf_4k sg3 2 (- 1) =
     (0, [\<lparr>sg_page = Some 9, sg_offset = 0, sg_length = 8192\<rparr>,
          \<lparr>sg_page = Some 20, sg_offset = 0, sg_length = 8192\<rparr>,
          sg_clear])"
    by (simp add: spec_full_clustering_def spec_candidates_def spec_head_merge_def
          spec_tail_merge_def sg3_def PAGE_SIZE_def pf_4k_def page_to_pfn_def upt_conv_Cons)
  with a b sgv_check_full_clustering_spec[OF a b, of "- 1"] show ?thesis by simp
qed


section \<open>The purge worker (claim C8)\<close>

text \<open>
  The age of a cached object, as the kernel's time macros read a distance between two
  values of \<open>jiffies\<close>: the signed difference.
\<close>

definition obj_age :: "ulong \<Rightarrow> sgv_pool_obj \<Rightarrow> int" where
  "obj_age now obj = sint (now - time_stamp obj)"

lemma time_after_eq_age:
  assumes "0 \<le> obj_age now obj" "0 \<le> after" "after < 2 ^ 63"
  shows "time_after_eq now (time_stamp obj + word_of_int after) \<longleftrightarrow> after \<le> obj_age now obj"
proof -
  let ?x = "now - time_stamp obj"
  let ?a = "word_of_int after :: ulong"
  have sa: "sint ?a = after"
    using assms(2,3) by (simp add: sint_sbintrunc' signed_take_bit_int_eq_self)
  have bx: "sint ?x < 2 ^ 63" using sint_lt[of ?x] by simp
  have "sint (?x - ?a) = signed_take_bit 63 (sint ?x - sint ?a)"
    by (simp add: sint_word_ariths)
  also have "\<dots> = sint ?x - after"
    using assms bx sa by (simp add: signed_take_bit_int_eq_self obj_age_def)
  finally have d: "sint (?x - ?a) = obj_age now obj - after" by (simp add: obj_age_def)
  have e: "now - (time_stamp obj + ?a) = ?x - ?a" by simp
  show ?thesis unfolding time_after_eq_def e d by linarith
qed


text \<open>
  Unlinking an object and destroying it; the frame numbers of the pages an object
  holds; and the worker's test on an object.
\<close>

definition purge_destroy :: "platform \<Rightarrow> sgv_pool_obj \<Rightarrow> sgv_state \<Rightarrow> sgv_state" where
  "purge_destroy pf obj s = sgv_dtor_and_free pf obj (uu_sgv_purge_from_cache obj s)"

definition obj_pfns :: "platform \<Rightarrow> sgv_pool_obj \<Rightarrow> nat list" where
  "obj_pfns pf obj =
     (if sg_count obj \<noteq> 0
      then concat (map (entry_pfns pf) (take (nat (sg_count obj)) (sg_entries obj)))
      else [])"

definition purge_test :: "platform \<Rightarrow> ulong \<Rightarrow> sgv_pool_obj \<Rightarrow> bool" where
  "purge_test pf t obj = time_after_eq t (time_stamp obj + word_of_int (PURGE_TIME_AFTER pf))"

lemmas purge_unfold =
  uu_sgv_purge_from_cache_def Let_def sgv_dec_cached_entries_def
  sgv_del_from_active_def upd_pool_def list_del_recycling_def list_del_sorted_def

lemma purge_destroy_sorted:
  "sorted_recycling_list (pool_at (purge_destroy pf obj s) q)
     = remove1 obj (sorted_recycling_list (pool_at s q))"
  by (simp add: purge_destroy_def sorted_after_purge)

lemma purge_destroy_recycling:
  "recycling_lists (pool_at (purge_destroy pf obj s) q) i
     = remove1 obj (recycling_lists (pool_at s q) i)"
  by (simp add: purge_destroy_def recycling_after_purge)

lemma purge_destroy_work:
  "sgv_purge_work (pool_at (purge_destroy pf obj s) q) = sgv_purge_work (pool_at s q)"
  "purge_work_scheduled (pool_at (purge_destroy pf obj s) q) = purge_work_scheduled (pool_at s q)"
  by (simp_all add: purge_destroy_def purge_unfold)

lemma purge_destroy_total:
  "sgv_pages_total (purge_destroy pf obj s) = sgv_pages_total s - order_pages (order_or_pages obj)"
  unfolding purge_destroy_def
  by (subst dtor_eq) (simp add: purge_unfold)

lemma purge_destroy_live:
  "pages_live (purge_destroy pf obj s) = pages_live s - mset (obj_pfns pf obj)"
  by (simp add: purge_destroy_def sgv_dtor_and_free_def free_sys_closed obj_pfns_def purge_unfold)

lemma purge_destroy_pool_at:
  "pool_at (purge_destroy pf obj s) = pool_at (uu_sgv_purge_from_cache obj s)"
  by (simp add: purge_destroy_def)

lemma fold_purge_destroy_sorted:
  "sorted_recycling_list (pool_at (fold (purge_destroy pf) os s) q)
     = fold remove1 os (sorted_recycling_list (pool_at s q))"
  by (induction os arbitrary: s) (simp_all add: purge_destroy_sorted)

lemma fold_purge_destroy_recycling:
  "recycling_lists (pool_at (fold (purge_destroy pf) os s) q) i
     = fold remove1 os (recycling_lists (pool_at s q) i)"
  by (induction os arbitrary: s) (simp_all add: purge_destroy_recycling)

lemma fold_purge_destroy_work:
  "sgv_purge_work (pool_at (fold (purge_destroy pf) os s) q) = sgv_purge_work (pool_at s q)"
  "purge_work_scheduled (pool_at (fold (purge_destroy pf) os s) q) = purge_work_scheduled (pool_at s q)"
  by (induction os arbitrary: s) (simp_all add: purge_destroy_work)

lemma fold_purge_destroy_total:
  "sgv_pages_total (fold (purge_destroy pf) os s)
     = sgv_pages_total s - (\<Sum>obj\<leftarrow>os. order_pages (order_or_pages obj))"
  by (induction os arbitrary: s) (simp_all add: purge_destroy_total)

lemma fold_purge_destroy_live:
  "pages_live (fold (purge_destroy pf) os s)
     = pages_live s - mset (concat (map (obj_pfns pf) os))"
  by (induction os arbitrary: s) (simp_all add: purge_destroy_live)

lemma fold_remove1_takeWhile:
  "fold remove1 (takeWhile P xs) xs = dropWhile P xs"
  by (induction xs) simp_all

lemma purge_work_loop_eq:
  "sgv_purge_work_loop pf pool t s =
     (let lru = sorted_recycling_list (pool_at s pool);
          s1 = fold (purge_destroy pf) (takeWhile (purge_test pf t) lru) s
      in if dropWhile (purge_test pf t) lru = [] then s1
         else upd_pool s1 pool
                (\<lambda>p. p\<lparr>sgv_purge_work :=
                         schedule_delayed_work (PURGE_INTERVAL pf) (sgv_purge_work p),
                       purge_work_scheduled := True\<rparr>))"
proof (induction pf pool t s rule: sgv_purge_work_loop.induct)
  case (1 pf pool t s)
  show ?case
  proof (cases "sorted_recycling_list (pool_at s pool)")
    case Nil
    then show ?thesis by (subst sgv_purge_work_loop.simps) simp
  next
    case (Cons obj rest)
    show ?thesis
    proof (cases "purge_test pf t obj")
      case False
      with Cons show ?thesis
        by (subst sgv_purge_work_loop.simps)
           (simp add: sgv_purge_from_cache_def purge_test_def)
    next
      case True
      let ?s' = "purge_destroy pf obj s"
      have r: "sgv_purge_from_cache obj (PURGE_TIME_AFTER pf) t s
                 = (True, uu_sgv_purge_from_cache obj s)"
        using True by (simp add: sgv_purge_from_cache_def purge_test_def)
      have l': "sorted_recycling_list (pool_at ?s' pool) = rest"
        using Cons by (simp add: purge_destroy_sorted)
      have "sgv_purge_work_loop pf pool t s = sgv_purge_work_loop pf pool t ?s'"
        using Cons r by (subst sgv_purge_work_loop.simps) (simp add: purge_destroy_def)
      also have "\<dots> = (let lru = sorted_recycling_list (pool_at ?s' pool);
          s1 = fold (purge_destroy pf) (takeWhile (purge_test pf t) lru) ?s'
      in if dropWhile (purge_test pf t) lru = [] then s1
         else upd_pool s1 pool
                (\<lambda>p. p\<lparr>sgv_purge_work :=
                         schedule_delayed_work (PURGE_INTERVAL pf) (sgv_purge_work p),
                       purge_work_scheduled := True\<rparr>))"
        using "1.IH"[OF Cons refl] unfolding r
        by (simp add: purge_destroy_def[symmetric] purge_destroy_pool_at)
      finally show ?thesis using Cons True l' by (simp add: Let_def)
    qed
  qed
qed


lemma sorted_takeWhile_filter:
  assumes "sorted_wrt (\<lambda>a b. f b \<le> f a) xs"
  shows "takeWhile (\<lambda>x. (k::int) \<le> f x) xs = filter (\<lambda>x. k \<le> f x) xs
       \<and> dropWhile (\<lambda>x. k \<le> f x) xs = filter (\<lambda>x. \<not> k \<le> f x) xs"
  using assms
proof (induction xs)
  case Nil then show ?case by simp
next
  case (Cons x xs)
  show ?case
  proof (cases "k \<le> f x")
    case True
    with Cons show ?thesis by simp
  next
    case False
    with Cons.prems have "\<forall>y\<in>set xs. \<not> k \<le> f y" by auto
    then have "filter (\<lambda>x. k \<le> f x) xs = []" "filter (\<lambda>x. \<not> k \<le> f x) xs = xs"
      by (simp_all add: filter_empty_conv filter_id_conv)
    with False show ?thesis by simp
  qed
qed

text \<open>
  Claim C8. When the purge worker runs for a pool (its work no longer queued) whose
  LRU is sorted by release time, oldest first, with no time stamp in the future, every
  object whose age is at least \<open>PURGE_TIME_AFTER\<close> is unlinked from the LRU and from
  its bucket and destroyed (its pages freed, the counter of all pages lowered); the
  younger objects stay, in order. If any object stays, the worker is queued again with
  delay \<open>PURGE_INTERVAL\<close> and marked scheduled; if the LRU becomes empty it is not
  queued and not marked.
\<close>

theorem purge_work_fn_spec:
  fixes pf :: platform and pool :: nat and s :: sgv_state
  defines "lru \<equiv> sorted_recycling_list (pool_at s pool)"
    and "old \<equiv> (\<lambda>obj. PURGE_TIME_AFTER pf \<le> obj_age (jiffies s) obj)"
    and "s' \<equiv> sgv_purge_work_fn pf pool s"
  assumes idle: "sgv_purge_work (pool_at s pool) = None"
    and hz: "0 \<le> PURGE_TIME_AFTER pf" "PURGE_TIME_AFTER pf < 2 ^ 63"
    and past: "\<forall>obj\<in>set lru. 0 \<le> obj_age (jiffies s) obj"
    and srt: "sorted_wrt (\<lambda>a b. obj_age (jiffies s) b \<le> obj_age (jiffies s) a) lru"
  shows "sorted_recycling_list (pool_at s' pool) = filter (\<lambda>obj. \<not> old obj) lru
       \<and> (\<forall>q i. recycling_lists (pool_at s' q) i
                   = fold remove1 (filter old lru) (recycling_lists (pool_at s q) i))
       \<and> pages_live s' = pages_live s - mset (concat (map (obj_pfns pf) (filter old lru)))
       \<and> sgv_pages_total s'
           = sgv_pages_total s - (\<Sum>obj\<leftarrow>filter old lru. order_pages (order_or_pages obj))
       \<and> (if filter (\<lambda>obj. \<not> old obj) lru = []
           then sgv_purge_work (pool_at s' pool) = None
                \<and> \<not> purge_work_scheduled (pool_at s' pool)
           else sgv_purge_work (pool_at s' pool) = Some (PURGE_INTERVAL pf)
                \<and> purge_work_scheduled (pool_at s' pool))"
proof -
  let ?s0 = "upd_pool s pool (\<lambda>p. p\<lparr>purge_work_scheduled := False\<rparr>)"
  let ?P = "purge_test pf (jiffies s)"
  have lru0: "sorted_recycling_list (pool_at ?s0 pool) = lru"
    by (simp add: upd_pool_def lru_def)
  have P_old: "\<And>obj. obj \<in> set lru \<Longrightarrow> ?P obj = old obj"
    using time_after_eq_age[OF _ hz] past by (simp add: purge_test_def old_def)
  have tw: "takeWhile ?P lru = takeWhile old lru"
    by (rule takeWhile_cong) (simp_all add: P_old)
  have dw: "dropWhile ?P lru = dropWhile old lru"
    by (rule dropWhile_cong) (simp_all add: P_old)
  from sorted_takeWhile_filter[OF srt, of "PURGE_TIME_AFTER pf"]
  have tf: "takeWhile ?P lru = filter old lru" and df: "dropWhile ?P lru = filter (\<lambda>obj. \<not> old obj) lru"
    unfolding tw dw old_def by simp_all
  let ?s1 = "fold (purge_destroy pf) (filter old lru) ?s0"
  let ?resched = "\<lambda>p. p\<lparr>sgv_purge_work :=
                         schedule_delayed_work (PURGE_INTERVAL pf) (sgv_purge_work p),
                       purge_work_scheduled := True\<rparr>"
  have s': "s' = (if filter (\<lambda>obj. \<not> old obj) lru = [] then ?s1 else upd_pool ?s1 pool ?resched)"
    unfolding s'_def sgv_purge_work_fn_def
    by (subst purge_work_loop_eq) (simp add: Let_def lru0 tf df del: dropWhile_eq_Nil_conv)
  have jf: "jiffies ?s0 = jiffies s" by (simp add: upd_pool_def)
  have a: "sorted_recycling_list (pool_at ?s1 pool) = filter (\<lambda>obj. \<not> old obj) lru"
    using fold_remove1_takeWhile[of ?P lru]
    by (simp add: fold_purge_destroy_sorted lru0 tf df)
  have b: "recycling_lists (pool_at ?s1 q) i
                   = fold remove1 (filter old lru) (recycling_lists (pool_at s q) i)" for q i
    by (simp add: fold_purge_destroy_recycling upd_pool_def)
  have c: "pages_live ?s1 = pages_live s - mset (concat (map (obj_pfns pf) (filter old lru)))"
    by (simp add: fold_purge_destroy_live upd_pool_def)
  have d: "sgv_pages_total ?s1
           = sgv_pages_total s - (\<Sum>obj\<leftarrow>filter old lru. order_pages (order_or_pages obj))"
    by (simp add: fold_purge_destroy_total upd_pool_def)
  have e: "sgv_purge_work (pool_at ?s1 pool) = None" "\<not> purge_work_scheduled (pool_at ?s1 pool)"
    using idle by (simp_all add: fold_purge_destroy_work upd_pool_def)
  show ?thesis
  proof (cases "filter (\<lambda>obj. \<not> old obj) lru = []")
    case True
    then have "s' = ?s1" using s' by simp
    with a b c d e True show ?thesis by simp
  next
    case False
    then have "s' = upd_pool ?s1 pool ?resched" using s' by simp
    with a b c d e False show ?thesis
      by (simp add: upd_pool_def schedule_delayed_work_def)
  qed
qed


text \<open>
  A cached one-page object, and a state in which the first pool caches two of them,
  released at times 0 and 5000; the clock stands at 6100 and \<open>HZ\<close> is 100.
\<close>

definition cached_obj :: "nat \<Rightarrow> nat \<Rightarrow> nat \<Rightarrow> ulong \<Rightarrow> sgv_pool_obj" where
  "cached_obj addr pool pfn t =
     zero_obj\<lparr>obj_addr := addr, owner_pool := pool,
              sg_entries := [\<lparr>sg_page = Some pfn, sg_offset = 0, sg_length = 4096\<rparr>],
              sg_count := 1, orig_length := 4096, time_stamp := t\<rparr>"

definition purge_state :: sgv_state where
  "purge_state =
     (boot_state 100 50)
       \<lparr>sgv_pages_total := 2,
        sgv_cur_purge_pool := Some 10,
        sgv_active_pools_list := list_add_tail 10 Dlist.empty,
        pool_at := (pool_at (boot_state 100 50))
          (10 := (fresh_pool sgv_no_clustering)
             \<lparr>recycling_lists := (\<lambda>i. if i = 0 then [cached_obj 200 10 8 5000, cached_obj 100 10 7 0]
                                       else []),
              sorted_recycling_list := [cached_obj 100 10 7 0, cached_obj 200 10 8 5000],
              cached_entries := 2, cached_pages := 2, inactive_cached_pages := 2,
              purge_work_scheduled := True\<rparr>),
        jiffies := 6100,
        pages_live := {#7, 8#}\<rparr>"

lemma PAGE_SIZE_4k [simp]: "PAGE_SIZE pf_4k = 4096"
  by (simp add: PAGE_SIZE_def pf_4k_def)

theorem purge_work_fn_spec_witness:
  "sgv_purge_work (pool_at purge_state 10) = None
   \<and> obj_age (jiffies purge_state) (cached_obj 100 10 7 0) = 6100
   \<and> obj_age (jiffies purge_state) (cached_obj 200 10 8 5000) = 1100
   \<and> PURGE_TIME_AFTER pf_4k = 6000
   \<and> sorted_recycling_list (pool_at (sgv_purge_work_fn pf_4k 10 purge_state) 10)
        = [cached_obj 200 10 8 5000]
   \<and> recycling_lists (pool_at (sgv_purge_work_fn pf_4k 10 purge_state) 10) 0
        = [cached_obj 200 10 8 5000]
   \<and> pages_live (sgv_purge_work_fn pf_4k 10 purge_state) = {#8#}
   \<and> sgv_pages_total (sgv_purge_work_fn pf_4k 10 purge_state) = 1
   \<and> sgv_purge_work (pool_at (sgv_purge_work_fn pf_4k 10 purge_state) 10) = Some 6000
   \<and> purge_work_scheduled (pool_at (sgv_purge_work_fn pf_4k 10 purge_state) 10)"
proof -
  let ?A = "cached_obj 100 10 7 0" and ?B = "cached_obj 200 10 8 5000"
  have lru: "sorted_recycling_list (pool_at purge_state 10) = [?A, ?B]"
    by (simp add: purge_state_def)
  have j: "jiffies purge_state = 6100" by (simp add: purge_state_def)
  have ages: "obj_age 6100 ?A = 6100" "obj_age 6100 ?B = 1100"
    by (simp_all add: obj_age_def cached_obj_def)
  have pta: "PURGE_TIME_AFTER pf_4k = 6000" "PURGE_INTERVAL pf_4k = 6000"
    by (simp_all add: PURGE_TIME_AFTER_def PURGE_INTERVAL_def pf_4k_def)
  have idle: "sgv_purge_work (pool_at purge_state 10) = None"
    by (simp add: purge_state_def fresh_pool_def)
  have pfn: "obj_pfns pf_4k ?A = [7]"
    by (simp add: obj_pfns_def cached_obj_def entry_pfns_def len_to_pages_def page_to_pfn_def)
  have ne: "?A \<noteq> ?B"
    by (simp add: cached_obj_def zero_obj_def)
  have rest: "recycling_lists (pool_at purge_state 10) 0 = [?B, ?A]"
             "pages_live purge_state = {#7, 8#}" "sgv_pages_total purge_state = 2"
    by (simp_all add: purge_state_def)
  have op: "order_pages (order_or_pages ?A) = 1"
    by (simp add: order_pages_def cached_obj_def zero_obj_def)
  have h1: "0 \<le> PURGE_TIME_AFTER pf_4k" and h2: "PURGE_TIME_AFTER pf_4k < 2 ^ 63"
    by (simp_all add: pta)
  have h3: "\<forall>obj\<in>set (sorted_recycling_list (pool_at purge_state 10)).
              0 \<le> obj_age (jiffies purge_state) obj"
    by (simp add: lru j ages)
  have h4: "sorted_wrt (\<lambda>a b. obj_age (jiffies purge_state) b \<le> obj_age (jiffies purge_state) a)
              (sorted_recycling_list (pool_at purge_state 10))"
    by (simp add: lru j ages)
  have f: "filter (\<lambda>obj. PURGE_TIME_AFTER pf_4k \<le> obj_age 6100 obj) [?A, ?B] = [?A]"
          "filter (\<lambda>obj. \<not> PURGE_TIME_AFTER pf_4k \<le> obj_age 6100 obj) [?A, ?B] = [?B]"
    by (simp_all add: ages pta)
  from purge_work_fn_spec[OF idle h1 h2 h3 h4]
  show ?thesis
    unfolding lru j f
    by (simp add: ages pta idle pfn ne rest op)
qed


section \<open>Releasing an object (claim C6)\<close>

lemma recycling_insert_mset: "mset (recycling_insert obj xs) = add_mset obj (mset xs)"
  by (induction xs) simp_all

lemma recycling_insert_set: "set (recycling_insert obj xs) = insert obj (set xs)"
  by (induction xs) auto

lemma recycling_insert_sorted:
  "sorted (map sg_count xs) \<Longrightarrow> sorted (map sg_count (recycling_insert obj xs))"
  by (induction xs) (auto simp: recycling_insert_set)

text \<open>
  Claim C6, amended. On release of a bucketed object the entry at \<open>orig_sg\<close> gets
  \<open>orig_length\<close> back, the object is stamped with the current \<open>jiffies\<close> and
  appended to the pool's LRU, and the quota is given back the object's pages. In a pool
  with clustering the object goes into its bucket's free-list in front of the first
  entry whose \<open>sg_count\<close> is not smaller than its own, so a list in ascending order
  stays so; in a pool without clustering it goes to the head of the list. The other
  buckets are untouched. If the pool's \<open>purge_work_scheduled\<close> flag is clear, the
  flag is set and the purge worker is queued with delay \<open>PURGE_INTERVAL\<close>.
\<close>

theorem sgv_pool_free_bucketed:
  fixes pf :: platform and obj :: sgv_pool_obj and mem_lim :: scst_mem_lim and s :: sgv_state
  defines "p \<equiv> pool_at s (owner_pool obj)"
    and "k \<equiv> nat (order_or_pages obj)"
    and "obj' \<equiv> obj\<lparr>sg_entries :=
                       sg_set_length (sg_entries obj) (nat (orig_sg obj)) (orig_length obj),
                     time_stamp := jiffies s\<rparr>"
    and "p' \<equiv> pool_at (snd (sgv_pool_free pf obj mem_lim s)) (owner_pool obj)"
  assumes bucketed: "0 \<le> order_or_pages obj"
  shows "(nat (orig_sg obj) < length (sg_entries obj) \<longrightarrow>
            sg_length (sg_entries obj' ! nat (orig_sg obj)) = orig_length obj)
       \<and> recycling_lists p' k =
            (if sgv_pool_clustered p then recycling_insert obj' (recycling_lists p k)
             else obj' # recycling_lists p k)
       \<and> (sgv_pool_clustered p \<and> sorted (map sg_count (recycling_lists p k)) \<longrightarrow>
            sorted (map sg_count (recycling_lists p' k)))
       \<and> (\<forall>i. i \<noteq> k \<longrightarrow> recycling_lists p' i = recycling_lists p i)
       \<and> sorted_recycling_list p' = sorted_recycling_list p @ [obj']
       \<and> time_stamp obj' = jiffies s
       \<and> purge_work_scheduled p'
       \<and> sgv_purge_work p' =
            (if purge_work_scheduled p then sgv_purge_work p
             else schedule_delayed_work (PURGE_INTERVAL pf) (sgv_purge_work p))
       \<and> (\<not> purge_work_scheduled p \<and> sgv_purge_work p = None \<longrightarrow>
            sgv_purge_work p' = Some (PURGE_INTERVAL pf))
       \<and> inactive_cached_pages p' = inactive_cached_pages p + 2 ^ k
       \<and> fst (sgv_pool_free pf obj mem_lim s) =
            mem_lim\<lparr>alloced_pages := alloced_pages mem_lim
                                       - (if sg_count obj \<noteq> 0 then 2 ^ k else 0)\<rparr>
       \<and> sgv_pages_total (snd (sgv_pool_free pf obj mem_lim s)) = sgv_pages_total s"
  using bucketed
  unfolding p_def k_def obj'_def p'_def
  by (auto simp: sgv_pool_free_def sgv_put_obj_def Let_def upd_pool_def order_pages_def
        sgv_uncheck_allowed_mem_def schedule_delayed_work_def sgv_pool_clustered_def
        recycling_insert_sorted sg_set_length_def)


text \<open>
  Claim C6 says that every released bucketed object is inserted in ascending order of
  \<open>sg_count\<close>. The source sorts only in pools with clustering. In the first pool,
  which has none, take an object with the flags \<^verbatim>\<open>NO_ALLOC_ON_CACHE_MISS\<close> and
  \<^verbatim>\<open>RETURN_OBJ_ON_ALLOC_FAIL\<close> (an object without pages, \<open>sg_count = 0\<close>), take a
  second one page long, and release them in that order: the bucket then holds the
  object of one entry in front of the object of none.
\<close>

definition shell_s0 :: sgv_state where
  "shell_s0 = (boot_state 100 50)\<lparr>kmalloc_src := [Some 300, Some 100], page_src := [Some 7]\<rparr>"

definition quota10 :: scst_mem_lim where
  "quota10 = \<lparr>alloced_pages = 0, max_allowed_pages = 10\<rparr>"

definition shell_r1 :: sgv_alloc_res where
  "shell_r1 = the (sgv_pool_alloc pf_4k 10 4096 False
                {SCST_POOL_NO_ALLOC_ON_CACHE_MISS, SCST_POOL_RETURN_OBJ_ON_ALLOC_FAIL}
                0 None quota10 0 shell_s0)"

definition shell_r2 :: sgv_alloc_res where
  "shell_r2 = the (sgv_pool_alloc pf_4k 10 4096 False {} 0 None
                     (res_mem_lim shell_r1) 0 (res_state shell_r1))"

definition shell_f1 :: "scst_mem_lim \<times> sgv_state" where
  "shell_f1 = sgv_pool_free pf_4k (the (res_sgv shell_r1)) (res_mem_lim shell_r2)
                (res_state shell_r2)"

definition shell_f2 :: "scst_mem_lim \<times> sgv_state" where
  "shell_f2 = sgv_pool_free pf_4k (the (res_sgv shell_r2)) (fst shell_f1) (snd shell_f1)"

text \<open>The definitions a concrete run unfolds.\<close>

lemmas run_defs =
  sgv_pool_alloc_def alloc_cached_def alloc_brand_new_def alloc_big_def alloc_supplied_def alloc_fill_def
  alloc_success_def out_uncheck_def out_fail_def out_fail_free_def
  out_fail_free_sg_entries_def out_return_def out_return1_def out_return2_def
  sgv_check_allowed_mem_def sgv_uncheck_allowed_mem_def sgv_hiwmk_check_def
  sgv_hiwmk_uncheck_def sgv_get_obj_def sgv_alloc_arrays_def sgv_alloc_sg_entries_def
  sgv_alloc_sys_pages_def alloc_pages_def kmalloc_def sg_init_table_def trans_tbl_init_def
  list_add_tail_active_def upd_pool_def order_pages_def get_order_def zero_obj_def
  sgv_pool_clustered_def sgv_dec_cached_entries_def sgv_del_from_active_def
  list_del_sorted_def list_del_recycling_def sg_clear_def
  sgv_pool_free_def sgv_put_obj_def schedule_delayed_work_def PURGE_INTERVAL_def
  sg_set_length_def boot_state_def fresh_pool_def pf_4k_def PAGE_SIZE_def Let_def int32_def

theorem free_list_order_counterexample:
  "map sg_count (recycling_lists (pool_at (snd shell_f2) 10) 0) = [1, 0]
   \<and> \<not> sorted (map sg_count (recycling_lists (pool_at (snd shell_f2) 10) 0))"
  by (simp add: shell_f2_def shell_f1_def shell_r2_def shell_r1_def shell_s0_def quota10_def
        run_defs)


text \<open>
  Two objects of two pages in the pool with clustering, one of two entries and cached,
  one of a single merged entry, truncated to 5000 bytes and about to be released.
\<close>

definition two_entries :: sgv_pool_obj where
  "two_entries =
     zero_obj\<lparr>obj_addr := 100, order_or_pages := 1, owner_pool := 20,
              sg_entries := [\<lparr>sg_page = Some 7, sg_offset = 0, sg_length = 4096\<rparr>,
                             \<lparr>sg_page = Some 9, sg_offset = 0, sg_length = 4096\<rparr>],
              trans_tbl := Some [\<lparr>sg_num = 1, pg_count = 0\<rparr>, \<lparr>sg_num = 2, pg_count = 1\<rparr>],
              sg_count := 2, orig_sg := 1, orig_length := 4096, time_stamp := 50\<rparr>"

definition one_entry :: sgv_pool_obj where
  "one_entry =
     zero_obj\<lparr>obj_addr := 200, order_or_pages := 1, owner_pool := 20,
              sg_entries := [\<lparr>sg_page = Some 30, sg_offset = 0, sg_length = 5000\<rparr>, sg_clear],
              trans_tbl := Some [\<lparr>sg_num = 1, pg_count = 0\<rparr>, \<lparr>sg_num = 1, pg_count = 2\<rparr>],
              sg_count := 1, orig_sg := 0, orig_length := 8192, time_stamp := 0\<rparr>"

definition free_state :: sgv_state where
  "free_state =
     (boot_state 100 50)
       \<lparr>sgv_pages_total := 4,
        sgv_active_pools_list := list_add_tail 20 Dlist.empty,
        pool_at := (pool_at (boot_state 100 50))
          (20 := (fresh_pool sgv_full_clustering)
             \<lparr>recycling_lists := (\<lambda>i. if i = 1 then [two_entries] else []),
              sorted_recycling_list := [two_entries],
              cached_entries := 2, cached_pages := 4, inactive_cached_pages := 2\<rparr>),
        jiffies := 77,
        pages_live := {#7, 9, 30, 31#}\<rparr>"

theorem sgv_pool_free_bucketed_witness:
  "0 \<le> order_or_pages one_entry
   \<and> recycling_lists
        (pool_at (snd (sgv_pool_free pf_4k one_entry quota10 free_state)) 20) 1
       = [one_entry\<lparr>sg_entries :=
                       [\<lparr>sg_page = Some 30, sg_offset = 0, sg_length = 8192\<rparr>, sg_clear],
                     time_stamp := 77\<rparr>,
          two_entries]
   \<and> sorted_recycling_list
        (pool_at (snd (sgv_pool_free pf_4k one_entry quota10 free_state)) 20)
       = [two_entries,
          one_entry\<lparr>sg_entries :=
                       [\<lparr>sg_page = Some 30, sg_offset = 0, sg_length = 8192\<rparr>, sg_clear],
                     time_stamp := 77\<rparr>]
   \<and> sgv_purge_work
        (pool_at (snd (sgv_pool_free pf_4k one_entry quota10 free_state)) 20) = Some 6000"
proof -
  have b: "0 \<le> order_or_pages one_entry" by (simp add: one_entry_def zero_obj_def)
  have o: "owner_pool one_entry = 20" "nat (order_or_pages one_entry) = 1"
    by (simp_all add: one_entry_def zero_obj_def)
  have p: "pool_at free_state 20 =
      (fresh_pool sgv_full_clustering)
             \<lparr>recycling_lists := (\<lambda>i. if i = 1 then [two_entries] else []),
              sorted_recycling_list := [two_entries],
              cached_entries := 2, cached_pages := 4, inactive_cached_pages := 2\<rparr>"
    by (simp add: free_state_def)
  from sgv_pool_free_bucketed[OF b, where pf = pf_4k and mem_lim = quota10 and s = free_state]
  show ?thesis
    unfolding o p
    by (simp add: b fresh_pool_def sgv_pool_clustered_def schedule_delayed_work_def
          PURGE_INTERVAL_def pf_4k_def one_entry_def two_entries_def zero_obj_def
          free_state_def sg_clear_def sg_set_length_def)
qed


section \<open>The caller's private pointer (claim C7)\<close>

lemma map_sg_page_set_length [simp]:
  "map sg_page (sg_set_length xs i l) = map sg_page xs"
  by (cases "i < length xs")
     (simp_all add: sg_set_length_def map_update list_update_same_conv list_update_beyond)

text \<open>
  A call is a cache hit when it takes the bucket branch and the head of the bucket's
  free-list is an object with pages.
\<close>

definition cache_hit :: "platform \<Rightarrow> nat \<Rightarrow> nat \<Rightarrow> sgv_alloc_flag set \<Rightarrow> sgv_state \<Rightarrow> bool" where
  "cache_hit pf pool sz flags s =
     (get_order pf sz < SGV_POOL_ELEMENTS pf \<and> SCST_POOL_ALLOC_NO_CACHED \<notin> flags \<and>
      (case recycling_lists (pool_at s pool) (nat (get_order pf sz)) of
         [] \<Rightarrow> False
       | obj # _ \<Rightarrow> sg_count obj \<noteq> 0))"

lemma alloc_success_obj:
  "\<exists>obj'. res_sgv (alloc_success pf pool sz nc cache order pages obj m s) = Some obj'
     \<and> res_sg (alloc_success pf pool sz nc cache order pages obj m s) = Some (sg_entries obj')
     \<and> allocator_priv obj' = allocator_priv obj \<and> obj_addr obj' = obj_addr obj
     \<and> map sg_page (sg_entries obj') = map sg_page (sg_entries obj)"
  by (simp add: alloc_success_def Let_def)


lemma out_uncheck_none [simp]:
  "res_sg (out_uncheck a b c d e f g) = None"
  "res_sg (out_fail a b c f g) = None"
  "res_sg (out_fail_free p ca a b c f g) = None"
  "res_sg (out_fail_free_sg_entries p ca a b c f g) = None"
  "res_sg (out_return2 a b c e f g) = None"
  "res_sg (out_return1 ob a b c f g) = None"
  "res_sg (out_return p pr ob a b c f g) = None"
  by (simp_all add: out_uncheck_def out_fail_def out_fail_free_def out_fail_free_sg_entries_def
        out_return2_def out_return1_def out_return_def)

lemma alloc_fill_priv:
  assumes "res_sg (alloc_fill pf pool sz flags cache order pages pta obj m s) = Some y"
  shows "\<exists>obj'. res_sgv (alloc_fill pf pool sz flags cache order pages pta obj m s) = Some obj'
           \<and> y = sg_entries obj'
           \<and> allocator_priv obj' = allocator_priv obj"
proof -
  obtain cnt sg1 tt1 s1 where r:
    "sgv_alloc_sg_entries pf (sg_entries obj) pta (clustering_type (pool_at s pool))
       (trans_tbl obj) s = (cnt, sg1, tt1, s1)"
    by (cases "sgv_alloc_sg_entries pf (sg_entries obj) pta (clustering_type (pool_at s pool))
       (trans_tbl obj) s") auto
  show ?thesis
  proof (cases "cnt \<le> 0")
    case True
    with assms r show ?thesis by (auto simp: alloc_fill_def Let_def split: if_splits)
  next
    case False
    let ?obj1 = "obj\<lparr>sg_count := cnt, sg_entries := sg1, trans_tbl := tt1\<rparr>"
    from False r obtain s2 where
      e: "alloc_fill pf pool sz flags cache order pages pta obj m s
            = alloc_success pf pool sz (SCST_POOL_ALLOC_NO_CACHED \<in> flags) cache order pages
                ?obj1 m s2"
      by (simp add: alloc_fill_def Let_def)
    from alloc_success_obj[of pf pool sz "SCST_POOL_ALLOC_NO_CACHED \<in> flags" cache order pages
           ?obj1 m s2] assms
    show ?thesis unfolding e by auto
  qed
qed

lemma alloc_big_priv:
  assumes "res_sg (alloc_big pf pool sz flags priv order pages m s) = Some y"
  shows "\<exists>obj'. res_sgv (alloc_big pf pool sz flags priv order pages m s) = Some obj'
           \<and> y = sg_entries obj' \<and> allocator_priv obj' = priv"
  using assms
  by (auto simp: alloc_big_def Let_def zero_obj_def
      split: prod.splits bool.splits if_splits option.splits dest!: alloc_fill_priv)


lemma alloc_brand_new_priv:
  assumes "res_sg (alloc_brand_new pf pool sz flags priv order pages obj m s) = Some y"
  shows "\<exists>obj'. res_sgv (alloc_brand_new pf pool sz flags priv order pages obj m s) = Some obj'
           \<and> y = sg_entries obj' \<and> allocator_priv obj' = priv"
proof -
  let ?pta = "order_pages order"
  obtain rc obj1 s2 where a:
    "(if order \<le> sgv_max_local_order s
               then (0,
                     obj\<lparr>sg_entries := sg_init_table ?pta,
                         trans_tbl :=
                           (if sgv_pool_clustered (pool_at s pool)
                            then Some (trans_tbl_init ?pta)
                            else trans_tbl obj)\<rparr>,
                     s)
               else sgv_alloc_arrays obj ?pta order s) = (rc, obj1, s2)"
    using prod_cases3 by blast
  obtain r s3 where h: "sgv_hiwmk_check pf ?pta s2 = (r, s3)" by force
  from assms show ?thesis
    unfolding alloc_brand_new_def Let_def a
    by (auto simp: h split: if_splits dest!: alloc_fill_priv)
qed

lemma get_obj_miss:
  assumes "sgv_get_obj pool order s = (Some obj, s1)"
    and "case recycling_lists (pool_at s pool) (nat order) of [] \<Rightarrow> True
         | obj # _ \<Rightarrow> sg_count obj = 0"
  shows "sg_count obj = 0"
  using assms
  by (auto simp: sgv_get_obj_def Let_def zero_obj_def split: list.splits option.splits)

lemma alloc_cached_miss_priv:
  assumes "res_sg (alloc_cached pf pool sz flags priv order pages m s) = Some y"
    and miss: "case recycling_lists (pool_at s pool) (nat order) of [] \<Rightarrow> True
         | obj # _ \<Rightarrow> sg_count obj = 0"
  shows "\<exists>obj'. res_sgv (alloc_cached pf pool sz flags priv order pages m s) = Some obj'
           \<and> y = sg_entries obj' \<and> allocator_priv obj' = priv"
proof -
  obtain ok m1 where c: "sgv_check_allowed_mem m (order_pages order) = (ok, m1)" by force
  obtain objo s1 where g: "sgv_get_obj pool order s = (objo, s1)" by force
  from assms(1) show ?thesis
    unfolding alloc_cached_def Let_def c g
    using get_obj_miss[OF _ miss] g
    by (auto split: if_splits bool.splits option.splits dest!: alloc_brand_new_priv)
qed

lemma alloc_cached_hit_priv:
  assumes "res_sg (alloc_cached pf pool sz flags priv order pages m s) = Some y"
    and hit: "recycling_lists (pool_at s pool) (nat order) = obj # rest" "sg_count obj \<noteq> 0"
  shows "\<exists>obj'. res_sgv (alloc_cached pf pool sz flags priv order pages m s) = Some obj'
           \<and> y = sg_entries obj' \<and> allocator_priv obj' = allocator_priv obj
           \<and> obj_addr obj' = obj_addr obj
           \<and> map sg_page (sg_entries obj') = map sg_page (sg_entries obj)
           \<and> pages_live (res_state (alloc_cached pf pool sz flags priv order pages m s))
               = pages_live s"
proof -
  obtain ok m1 where c: "sgv_check_allowed_mem m (order_pages order) = (ok, m1)" by force
  let ?s1 = "upd_pool (list_del_recycling obj (list_del_sorted obj s)) pool
               (\<lambda>p. p\<lparr>inactive_cached_pages := inactive_cached_pages p - order_pages order\<rparr>)"
  have g: "sgv_get_obj pool order s = (Some obj, ?s1)"
    using hit by (simp add: sgv_get_obj_def Let_def)
  let ?s2 = "upd_pool ?s1 pool
                            (\<lambda>p. p\<lparr>cache_acc_hit_alloc := (cache_acc_hit_alloc p)
                                    (nat order := cache_acc_hit_alloc p (nat order) + 1)\<rparr>)"
  have pl: "pages_live (res_state (alloc_success pf pool sz
                         (SCST_POOL_ALLOC_NO_CACHED \<in> flags) True order pages obj m1 ?s2))
              = pages_live s"
    by (simp add: alloc_success_def Let_def upd_pool_def list_del_recycling_def
          list_del_sorted_def)
  from assms(1) alloc_success_obj[of pf pool sz "SCST_POOL_ALLOC_NO_CACHED \<in> flags" True order
        pages obj m1 ?s2] pl
  show ?thesis
    unfolding alloc_cached_def Let_def c g
    using hit(2) by (auto split: bool.splits)
qed


lemma out_sgv [simp]:
  "res_sgv (out_uncheck a b c d e f g) = e"
  "res_sgv (out_fail a b c f g) = None"
  "res_sgv (out_fail_free p ca a b c f g) = None"
  "res_sgv (out_fail_free_sg_entries p ca a b c f g) = None"
  "res_sgv (out_return2 a b c e f g) = e"
  "res_sgv (out_return1 ob a b c f g) = Some ob"
  "res_sgv (out_return p pr ob a b c f g) = Some (ob\<lparr>allocator_priv := pr, owner_pool := p\<rparr>)"
  by (simp_all add: out_uncheck_def out_fail_def out_fail_free_def out_fail_free_sg_entries_def
        out_return2_def out_return1_def out_return_def)

lemma alloc_fill_sgv:
  assumes "res_sgv (alloc_fill pf pool sz flags cache order pages pta obj m s) = Some obj'"
  shows "allocator_priv obj' = allocator_priv obj \<and> obj_addr obj' = obj_addr obj"
proof -
  obtain cnt sg1 tt1 s1 where r:
    "sgv_alloc_sg_entries pf (sg_entries obj) pta (clustering_type (pool_at s pool))
       (trans_tbl obj) s = (cnt, sg1, tt1, s1)"
    by (cases "sgv_alloc_sg_entries pf (sg_entries obj) pta (clustering_type (pool_at s pool))
       (trans_tbl obj) s") auto
  show ?thesis
  proof (cases "cnt \<le> 0")
    case True
    with assms r show ?thesis by (auto simp: alloc_fill_def Let_def split: if_splits)
  next
    case False
    let ?obj1 = "obj\<lparr>sg_count := cnt, sg_entries := sg1, trans_tbl := tt1\<rparr>"
    from False r obtain s2 where
      e: "alloc_fill pf pool sz flags cache order pages pta obj m s
            = alloc_success pf pool sz (SCST_POOL_ALLOC_NO_CACHED \<in> flags) cache order pages
                ?obj1 m s2"
      by (simp add: alloc_fill_def Let_def)
    from alloc_success_obj[of pf pool sz "SCST_POOL_ALLOC_NO_CACHED \<in> flags" cache order pages
           ?obj1 m s2] assms
    show ?thesis unfolding e by auto
  qed
qed

lemma alloc_supplied_sgv:
  assumes "res_sgv (alloc_supplied pf pool sz flags order pages obj m s) = Some obj'"
  shows "allocator_priv obj' = allocator_priv obj \<and> obj_addr obj' = obj_addr obj"
proof -
  obtain ok m1 where c: "sgv_check_allowed_mem m (order_pages order) = (ok, m1)" by force
  obtain r s1 where h: "sgv_hiwmk_check pf (order_pages order) s = (r, s1)" by force
  from assms show ?thesis
    unfolding alloc_supplied_def Let_def c h
    by (auto split: if_splits bool.splits dest!: alloc_fill_sgv)
qed

lemma alloc_supplied_priv:
  assumes "res_sg (alloc_supplied pf pool sz flags order pages obj m s) = Some y"
  shows "\<exists>obj'. res_sgv (alloc_supplied pf pool sz flags order pages obj m s) = Some obj'
           \<and> y = sg_entries obj'"
proof -
  obtain ok m1 where c: "sgv_check_allowed_mem m (order_pages order) = (ok, m1)" by force
  obtain r s1 where h: "sgv_hiwmk_check pf (order_pages order) s = (r, s1)" by force
  from assms show ?thesis
    unfolding alloc_supplied_def Let_def c h
    by (auto split: if_splits bool.splits dest!: alloc_fill_priv)
qed

lemma alloc_big_sgv:
  assumes "res_sgv (alloc_big pf pool sz flags priv order pages m s) = Some obj'"
  shows "allocator_priv obj' = priv"
proof -
  obtain ok m1 where c: "sgv_check_allowed_mem m pages = (ok, m1)" by force
  obtain a s1 where k: "kmalloc s = (a, s1)" by force
  obtain r s2 where h: "sgv_hiwmk_check pf pages s1 = (r, s2)" by force
  from assms show ?thesis
    unfolding alloc_big_def Let_def c k
    by (auto simp: zero_obj_def h split: if_splits bool.splits option.splits
          dest!: alloc_fill_sgv)
qed

lemma alloc_brand_new_sgv:
  assumes "res_sgv (alloc_brand_new pf pool sz flags priv order pages obj m s) = Some obj'"
  shows "allocator_priv obj' = priv"
proof -
  let ?pta = "order_pages order"
  obtain rc obj1 s2 where a:
    "(if order \<le> sgv_max_local_order s
               then (0,
                     obj\<lparr>sg_entries := sg_init_table ?pta,
                         trans_tbl :=
                           (if sgv_pool_clustered (pool_at s pool)
                            then Some (trans_tbl_init ?pta)
                            else trans_tbl obj)\<rparr>,
                     s)
               else sgv_alloc_arrays obj ?pta order s) = (rc, obj1, s2)"
    using prod_cases3 by blast
  obtain r s3 where h: "sgv_hiwmk_check pf ?pta s2 = (r, s3)" by force
  from assms show ?thesis
    unfolding alloc_brand_new_def Let_def a
    by (auto simp: h split: if_splits dest!: alloc_fill_sgv)
qed

lemma alloc_cached_miss_sgv:
  assumes "res_sgv (alloc_cached pf pool sz flags priv order pages m s) = Some obj'"
    and miss: "case recycling_lists (pool_at s pool) (nat order) of [] \<Rightarrow> True
         | obj # _ \<Rightarrow> sg_count obj = 0"
  shows "allocator_priv obj' = priv"
proof -
  obtain ok m1 where c: "sgv_check_allowed_mem m (order_pages order) = (ok, m1)" by force
  obtain objo s1 where g: "sgv_get_obj pool order s = (objo, s1)" by force
  from assms(1) show ?thesis
    unfolding alloc_cached_def Let_def c g
    using get_obj_miss[OF _ miss] g
    by (auto split: if_splits bool.splits option.splits dest!: alloc_brand_new_sgv)
qed

lemma alloc_cached_hit_sgv:
  assumes "res_sgv (alloc_cached pf pool sz flags priv order pages m s) = Some obj'"
    and hit: "recycling_lists (pool_at s pool) (nat order) = obj # rest" "sg_count obj \<noteq> 0"
  shows "res_sg (alloc_cached pf pool sz flags priv order pages m s) = Some (sg_entries obj')
           \<and> allocator_priv obj' = allocator_priv obj
           \<and> obj_addr obj' = obj_addr obj
           \<and> map sg_page (sg_entries obj') = map sg_page (sg_entries obj)
           \<and> pages_live (res_state (alloc_cached pf pool sz flags priv order pages m s))
               = pages_live s"
proof -
  obtain ok m1 where c: "sgv_check_allowed_mem m (order_pages order) = (ok, m1)" by force
  let ?s1 = "upd_pool (list_del_recycling obj (list_del_sorted obj s)) pool
               (\<lambda>p. p\<lparr>inactive_cached_pages := inactive_cached_pages p - order_pages order\<rparr>)"
  have g: "sgv_get_obj pool order s = (Some obj, ?s1)"
    using hit by (simp add: sgv_get_obj_def Let_def)
  let ?s2 = "upd_pool ?s1 pool
                            (\<lambda>p. p\<lparr>cache_acc_hit_alloc := (cache_acc_hit_alloc p)
                                    (nat order := cache_acc_hit_alloc p (nat order) + 1)\<rparr>)"
  have pl: "pages_live (res_state (alloc_success pf pool sz
                         (SCST_POOL_ALLOC_NO_CACHED \<in> flags) True order pages obj m1 ?s2))
              = pages_live s"
    by (simp add: alloc_success_def Let_def upd_pool_def list_del_recycling_def
          list_del_sorted_def)
  from assms(1) alloc_success_obj[of pf pool sz "SCST_POOL_ALLOC_NO_CACHED \<in> flags" True order
        pages obj m1 ?s2] pl
  show ?thesis
    unfolding alloc_cached_def Let_def c g
    using hit(2) by (auto split: bool.splits)
qed

text \<open>
  Claim C7 says that \<open>priv\<close> is written only at the first fill. The source writes it
  where it sets an object up, which is not always where it fills it. In the first pool,
  take an object with the flags \<^verbatim>\<open>NO_ALLOC_ON_CACHE_MISS\<close> and
  \<^verbatim>\<open>RETURN_OBJ_ON_ALLOC_FAIL\<close> and \<open>priv = 5\<close>: it comes back without pages and
  with \<open>priv\<close> stored (label \<^verbatim>\<open>out_return\<close>). Hand it to a second call with
  \<open>priv = 6\<close>: this call fills it for the first time, and the branch for a supplied
  object does not store \<open>priv\<close>, so the filled object still answers 5.
\<close>

definition priv_shell_s0 :: sgv_state where
  "priv_shell_s0 = (boot_state 100 50)\<lparr>kmalloc_src := [Some 300], page_src := [Some 7]\<rparr>"

definition priv_shell_r1 :: sgv_alloc_res where
  "priv_shell_r1 = the (sgv_pool_alloc pf_4k 10 4096 False
                     {SCST_POOL_NO_ALLOC_ON_CACHE_MISS, SCST_POOL_RETURN_OBJ_ON_ALLOC_FAIL}
                     0 None quota10 5 priv_shell_s0)"

definition priv_shell_r2 :: sgv_alloc_res where
  "priv_shell_r2 = the (sgv_pool_alloc pf_4k 10 4096 False {} 0 (res_sgv priv_shell_r1)
                          (res_mem_lim priv_shell_r1) 6 (res_state priv_shell_r1))"

theorem priv_first_fill_counterexample:
  "res_sg priv_shell_r1 = None
   \<and> sg_count (the (res_sgv priv_shell_r1)) = 0
   \<and> sgv_get_priv (the (res_sgv priv_shell_r1)) = 5
   \<and> \<not> cache_hit pf_4k 10 4096 {} (res_state priv_shell_r1)
   \<and> res_sg priv_shell_r2 = Some [\<lparr>sg_page = Some 7, sg_offset = 0, sg_length = 4096\<rparr>]
   \<and> sg_count (the (res_sgv priv_shell_r2)) = 1
   \<and> sgv_get_priv (the (res_sgv priv_shell_r2)) = 5
   \<and> sgv_get_priv (the (res_sgv priv_shell_r2)) \<noteq> 6"
  by (simp add: priv_shell_r2_def priv_shell_r1_def priv_shell_s0_def quota10_def run_defs
        sgv_get_priv_def cache_hit_def)

text \<open>
  Claim C7, amended. A vector is never returned without the object it belongs to.
  Whenever \<^verbatim>\<open>sgv_pool_alloc\<close> hands an object back, with a vector or without:
  an object the caller supplied keeps the \<open>priv\<close> stored in it, also when this call
  fills it for the first time; an object taken from the free-list on a cache hit is the
  head of the bucket's free-list, returned with its vector, with the \<open>priv\<close> stored in
  it and not the \<open>priv\<close> of the call, and with the same pages in the same entries, no
  page being allocated or freed; every other object was set up in this call and carries
  the caller's \<open>priv\<close>, whether it was filled or is handed out without pages.
  \<^verbatim>\<open>sgv_get_priv\<close> reads the stored field.
\<close>

theorem priv_written_at_setup:
  assumes sz: "sz \<noteq> 0"
    and ok: "sgv_pool_alloc pf pool sz gfp_nofail flags cnt sgv mem_lim priv s = Some r"
  shows "(res_sg r \<noteq> None \<longrightarrow>
            (\<exists>obj'. res_sgv r = Some obj' \<and> res_sg r = Some (sg_entries obj')))
       \<and> (\<forall>obj'. res_sgv r = Some obj' \<longrightarrow>
            (case sgv of
               Some obj \<Rightarrow>
                 sgv_get_priv obj' = sgv_get_priv obj \<and> obj_addr obj' = obj_addr obj
             | None \<Rightarrow>
                 if cache_hit pf pool sz flags s
                 then (\<exists>obj rest.
                         recycling_lists (pool_at s pool) (nat (get_order pf sz)) = obj # rest
                         \<and> res_sg r = Some (sg_entries obj')
                         \<and> sgv_get_priv obj' = sgv_get_priv obj
                         \<and> obj_addr obj' = obj_addr obj
                         \<and> map sg_page (sg_entries obj') = map sg_page (sg_entries obj)
                         \<and> pages_live (res_state r) = pages_live s)
                 else sgv_get_priv obj' = priv))"
proof -
  let ?order = "get_order pf sz"
  let ?pages = "int ((sz + PAGE_SIZE pf - 1) div PAGE_SIZE pf)"
  from sz ok have nf: "\<not> gfp_nofail" by (auto simp: sgv_pool_alloc_def split: if_splits)
  show ?thesis
  proof (cases sgv)
    case (Some obj)
    from Some sz nf ok have r: "r = alloc_supplied pf pool sz flags ?order ?pages obj mem_lim s"
      by (auto simp: sgv_pool_alloc_def Let_def)
    have v: "\<exists>obj'. res_sgv r = Some obj' \<and> res_sg r = Some (sg_entries obj')"
      if "res_sg r \<noteq> None"
    proof -
      from that obtain y where y: "res_sg r = Some y" by auto
      from alloc_supplied_priv[OF y[unfolded r]] y show ?thesis unfolding r by auto
    qed
    have p: "sgv_get_priv obj' = sgv_get_priv obj \<and> obj_addr obj' = obj_addr obj"
      if "res_sgv r = Some obj'" for obj'
      using alloc_supplied_sgv[OF that[unfolded r]] by (simp add: sgv_get_priv_def)
    show ?thesis using v p by (simp only: Some option.case) blast
  next
    case None
    show ?thesis
    proof (cases "?order < SGV_POOL_ELEMENTS pf \<and> SCST_POOL_ALLOC_NO_CACHED \<notin> flags")
      case False
      then have nh: "\<not> cache_hit pf pool sz flags s" by (auto simp: cache_hit_def)
      from False None sz nf ok
      have r: "r = alloc_big pf pool sz flags priv ?order ?pages mem_lim s"
        by (auto simp: sgv_pool_alloc_def Let_def)
      have v: "\<exists>obj'. res_sgv r = Some obj' \<and> res_sg r = Some (sg_entries obj')"
        if "res_sg r \<noteq> None"
      proof -
        from that obtain y where y: "res_sg r = Some y" by auto
        from alloc_big_priv[OF y[unfolded r]] y show ?thesis unfolding r by auto
      qed
      have p: "sgv_get_priv obj' = priv" if "res_sgv r = Some obj'" for obj'
        using alloc_big_sgv[OF that[unfolded r]] by (simp add: sgv_get_priv_def)
      show ?thesis using v p nh by (simp only: None option.case if_False) blast
    next
      case True
      from True None sz nf ok
      have r: "r = alloc_cached pf pool sz flags priv ?order ?pages mem_lim s"
        by (auto simp: sgv_pool_alloc_def Let_def)
      show ?thesis
      proof (cases "cache_hit pf pool sz flags s")
        case False
        with True have miss: "case recycling_lists (pool_at s pool) (nat ?order) of [] \<Rightarrow> True
           | obj # _ \<Rightarrow> sg_count obj = 0"
          by (auto simp: cache_hit_def split: list.splits)
        have v: "\<exists>obj'. res_sgv r = Some obj' \<and> res_sg r = Some (sg_entries obj')"
          if "res_sg r \<noteq> None"
        proof -
          from that obtain y where y: "res_sg r = Some y" by auto
          from alloc_cached_miss_priv[OF y[unfolded r] miss] y show ?thesis unfolding r by auto
        qed
        have p: "sgv_get_priv obj' = priv" if "res_sgv r = Some obj'" for obj'
          using alloc_cached_miss_sgv[OF that[unfolded r] miss] by (simp add: sgv_get_priv_def)
        show ?thesis using v p False by (simp only: None option.case if_False) blast
      next
        case h: True
        then obtain obj rest where
          l: "recycling_lists (pool_at s pool) (nat ?order) = obj # rest"
          and c: "sg_count obj \<noteq> 0"
          by (auto simp: cache_hit_def split: list.splits)
        have v: "\<exists>obj'. res_sgv r = Some obj' \<and> res_sg r = Some (sg_entries obj')"
          if "res_sg r \<noteq> None"
        proof -
          from that obtain y where y: "res_sg r = Some y" by auto
          from alloc_cached_hit_priv[OF y[unfolded r] l c] y show ?thesis unfolding r by auto
        qed
        have p: "res_sg r = Some (sg_entries obj')
                   \<and> sgv_get_priv obj' = sgv_get_priv obj
                   \<and> obj_addr obj' = obj_addr obj
                   \<and> map sg_page (sg_entries obj') = map sg_page (sg_entries obj)
                   \<and> pages_live (res_state r) = pages_live s"
          if "res_sgv r = Some obj'" for obj'
          using alloc_cached_hit_sgv[OF that[unfolded r] l c]
          unfolding r by (simp add: sgv_get_priv_def)
        show ?thesis using v p h l by (simp only: None option.case if_True) blast
      qed
    qed
  qed
qed

text \<open>
  A round trip in the first pool: a one-page object is filled for \<open>priv = 41\<close>,
  released, and handed out again to a call with \<open>priv = 99\<close>.
\<close>

definition priv_s0 :: sgv_state where
  "priv_s0 = (boot_state 100 50)\<lparr>kmalloc_src := [Some 100], page_src := [Some 7]\<rparr>"

definition priv_r1 :: sgv_alloc_res where
  "priv_r1 = the (sgv_pool_alloc pf_4k 10 4096 False {} 0 None quota10 41 priv_s0)"

definition priv_f :: "scst_mem_lim \<times> sgv_state" where
  "priv_f = sgv_pool_free pf_4k (the (res_sgv priv_r1)) (res_mem_lim priv_r1) (res_state priv_r1)"

definition priv_r2 :: sgv_alloc_res where
  "priv_r2 = the (sgv_pool_alloc pf_4k 10 4096 False {} 0 None (fst priv_f) 99 (snd priv_f))"

theorem priv_written_at_setup_witness:
  "sgv_pool_alloc pf_4k 10 4096 False {} 0 None (fst priv_f) 99 (snd priv_f) = Some priv_r2
   \<and> res_sg priv_r2 \<noteq> None
   \<and> cache_hit pf_4k 10 4096 {} (snd priv_f)
   \<and> sgv_get_priv (the (res_sgv priv_r1)) = 41
   \<and> sgv_get_priv (the (res_sgv priv_r2)) = 41
   \<and> map sg_page (sg_entries (the (res_sgv priv_r2))) = [Some 7]"
proof -
  have a: "sgv_pool_alloc pf_4k 10 4096 False {} 0 None (fst priv_f) 99 (snd priv_f) = Some priv_r2"
    by (simp add: priv_r2_def sgv_pool_alloc_def Let_def split: if_splits)
  have l: "recycling_lists (pool_at (snd priv_f) 10) 0
             = [(the (res_sgv priv_r1))\<lparr>time_stamp := 0\<rparr>]"
    by (simp add: priv_f_def priv_r1_def priv_s0_def quota10_def run_defs)
  have o: "get_order pf_4k 4096 = 0" by (simp add: get_order_def)
  have p1: "the (res_sgv priv_r1) =
              zero_obj\<lparr>obj_addr := 100, owner_pool := 10,
                sg_entries := [\<lparr>sg_page = Some 7, sg_offset = 0, sg_length = 4096\<rparr>],
                sg_count := 1, orig_length := 4096, allocator_priv := 41\<rparr>"
    by (simp add: priv_r1_def priv_s0_def quota10_def run_defs)
  have h: "cache_hit pf_4k 10 4096 {} (snd priv_f)"
    by (simp add: cache_hit_def o l p1) (simp add: pf_4k_def)
  have g: "res_sg priv_r2 \<noteq> None"
    by (simp add: priv_r2_def priv_f_def priv_r1_def priv_s0_def quota10_def run_defs)
  have z: "(4096::nat) \<noteq> 0" by simp
  from priv_written_at_setup[OF z a] g obtain obj' where
    o': "res_sgv priv_r2 = Some obj'" "res_sg priv_r2 = Some (sg_entries obj')"
    by blast
  from priv_written_at_setup[OF z a] o'(1) h
  have "\<exists>obj rest.
          recycling_lists (pool_at (snd priv_f) 10) (nat (get_order pf_4k 4096)) = obj # rest
          \<and> res_sg priv_r2 = Some (sg_entries obj')
          \<and> sgv_get_priv obj' = sgv_get_priv obj
          \<and> obj_addr obj' = obj_addr obj
          \<and> map sg_page (sg_entries obj') = map sg_page (sg_entries obj)
          \<and> pages_live (res_state priv_r2) = pages_live (snd priv_f)"
    by (simp only: option.case if_True)
  then show ?thesis
    using o' by (auto simp: a g h o l p1 sgv_get_priv_def)
qed


section \<open>The high-watermark gate (claim C1)\<close>

text \<open>
  What the shrinker needs of a state: the cursor, when set, points into the active
  list, and every pool on that list is referenced, so that the shrinker's own
  \<^verbatim>\<open>sgv_pool_get\<close> and \<^verbatim>\<open>sgv_pool_put\<close> never drop the last reference.
\<close>

definition shrink_ready :: "sgv_state \<Rightarrow> bool" where
  "shrink_ready s =
     (act_inv s \<and> list_all (\<lambda>p. sgv_pool_ref (pool_at s p) \<noteq> 0) (act_list s))"

lemma purge_frame:
  "sgv_pool_ref (pool_at (uu_sgv_purge_from_cache obj s) q) = sgv_pool_ref (pool_at s q)"
  "sgv_hi_wmk (uu_sgv_purge_from_cache obj s) = sgv_hi_wmk s"
  "sgv_lo_wmk (uu_sgv_purge_from_cache obj s) = sgv_lo_wmk s"
  "sgv_pages_total (uu_sgv_purge_from_cache obj s)
     = sgv_pages_total s - order_pages (order_or_pages obj)"
  "sgv_releases_on_hiwmk_failed (uu_sgv_purge_from_cache obj s) = sgv_releases_on_hiwmk_failed s"
  by (simp_all add: purge_unfold)

lemma purge_act_subset:
  "set (act_list (uu_sgv_purge_from_cache obj s)) \<subseteq> set (act_list s)"
  by (auto simp: purge_unfold act_list_def dest: notin_set_remove1)

lemma dtor_frame:
  "sgv_pool_ref (pool_at (sgv_dtor_and_free pf obj s) q) = sgv_pool_ref (pool_at s q)"
  "sgv_hi_wmk (sgv_dtor_and_free pf obj s) = sgv_hi_wmk s"
  "sgv_lo_wmk (sgv_dtor_and_free pf obj s) = sgv_lo_wmk s"
  "sgv_pages_total (sgv_dtor_and_free pf obj s) = sgv_pages_total s"
  "act_list (sgv_dtor_and_free pf obj s) = act_list s"
  "sgv_cur_purge_pool (sgv_dtor_and_free pf obj s) = sgv_cur_purge_pool s"
  by (subst dtor_eq, simp add: act_list_def)+

text \<open>What one pass over a pool keeps.\<close>

definition shrink_keeps :: "sgv_state \<Rightarrow> sgv_state \<Rightarrow> bool" where
  "shrink_keeps s s' =
     ((\<forall>q. sgv_pool_ref (pool_at s' q) = sgv_pool_ref (pool_at s q))
      \<and> sgv_hi_wmk s' = sgv_hi_wmk s
      \<and> set (act_list s') \<subseteq> set (act_list s)
      \<and> act_step s s')"

lemma shrink_keeps_refl: "shrink_keeps s s"
  by (simp add: shrink_keeps_def act_step_same)

lemma shrink_keeps_trans: "shrink_keeps s s' \<Longrightarrow> shrink_keeps s' s'' \<Longrightarrow> shrink_keeps s s''"
  unfolding shrink_keeps_def using act_step_trans by (auto simp: subset_iff)

lemma shrink_keeps_purge_destroy: "shrink_keeps s (purge_destroy pf obj s)"
  unfolding shrink_keeps_def purge_destroy_def
  using purge_act_subset[of obj s]
    act_step_trans[OF act_step_purge[of s obj] act_step_dtor[of "uu_sgv_purge_from_cache obj s" pf obj]]
  by (simp add: purge_frame dtor_frame)

lemma shrink_pool_loop_inv:
  "fst (sgv_shrink_pool_loop pf pool after cur_time nr freed s)
     - sgv_pages_total (snd (sgv_shrink_pool_loop pf pool after cur_time nr freed s))
     = nr - sgv_pages_total s
   \<and> shrink_keeps s (snd (sgv_shrink_pool_loop pf pool after cur_time nr freed s))"
proof (induction pf pool after cur_time nr freed s rule: sgv_shrink_pool_loop.induct)
  case (1 pf pool after cur_time nr freed s)
  show ?case
  proof (cases "sorted_recycling_list (pool_at s pool)")
    case Nil
    then show ?thesis
      by (subst sgv_shrink_pool_loop.simps, simp add: shrink_keeps_refl)+
  next
    case (Cons obj rest)
    let ?r = "sgv_purge_from_cache obj after cur_time s"
    let ?pages = "order_pages (order_or_pages obj)"
    let ?s1 = "sgv_dtor_and_free pf obj (snd ?r)"
    show ?thesis
    proof (cases "sgv_pages_total s > sgv_lo_wmk s \<and> fst ?r")
      case False
      with Cons show ?thesis
        by (subst sgv_shrink_pool_loop.simps, auto simp: Let_def shrink_keeps_refl)+
    next
      case True
      note T = True
      then have r: "snd ?r = uu_sgv_purge_from_cache obj s"
        by (auto simp: sgv_purge_from_cache_def split: if_splits)
      have s1: "?s1 = purge_destroy pf obj s" by (simp add: r purge_destroy_def)
      have tot: "sgv_pages_total ?s1 = sgv_pages_total s - ?pages"
        by (simp add: s1 purge_destroy_total)
      have k1: "shrink_keeps s ?s1" unfolding s1 by (rule shrink_keeps_purge_destroy)
      show ?thesis
      proof (cases "nr - ?pages \<le> 0 \<or> freed + ?pages \<ge> MAX_PAGES_PER_POOL")
        case True
        have "sgv_shrink_pool_loop pf pool after cur_time nr freed s = (nr - ?pages, ?s1)"
          using Cons T True by (subst sgv_shrink_pool_loop.simps) (simp add: Let_def)
        then show ?thesis using tot k1 by simp
      next
        case False
        have eq: "sgv_shrink_pool_loop pf pool after cur_time nr freed s
                = sgv_shrink_pool_loop pf pool after cur_time (nr - ?pages) (freed + ?pages) ?s1"
          using Cons T False by (subst sgv_shrink_pool_loop.simps) (simp add: Let_def)
        from "1.IH"[OF Cons _ refl _ refl refl refl refl] T False
        have ih: "fst (sgv_shrink_pool_loop pf pool after cur_time (nr - ?pages) (freed + ?pages) ?s1)
                 - sgv_pages_total (snd (sgv_shrink_pool_loop pf pool after cur_time (nr - ?pages) (freed + ?pages) ?s1))
                 = nr - ?pages - sgv_pages_total ?s1"
          and ih2: "shrink_keeps ?s1 (snd (sgv_shrink_pool_loop pf pool after cur_time (nr - ?pages) (freed + ?pages) ?s1))"
          by simp_all
        show ?thesis unfolding eq using ih tot shrink_keeps_trans[OF k1 ih2] by simp
      qed
    qed
  qed
qed


lemma shrink_sel_in:
  assumes "act_inv s" "shrink_pool_sel s = Some pool"
  shows "pool \<in> set (act_list s)"
  using assms
  by (auto simp: act_inv_def shrink_pool_sel_def split: option.splits dest: list_first_in)

lemma put_after_get:
  assumes "sgv_pool_ref (pool_at s pool) \<noteq> 1"
  shows "sgv_pool_put pf pool s
           = upd_pool s pool (\<lambda>p. p\<lparr>sgv_pool_ref := sgv_pool_ref p - 1\<rparr>)"
  using assms by (simp add: sgv_pool_put_def Let_def upd_pool_def)

lemma shrink_round_inv:
  assumes ready: "shrink_ready s"
    and sel: "shrink_pool_sel s = Some pool"
    and sb: "sb = (sgv_pool_get pool s)\<lparr>sgv_cur_purge_pool := nx\<rparr>"
    and nx: "nx = (case list_next (act_list s) pool of None \<Rightarrow> list_first (act_list s)
                   | Some q \<Rightarrow> Some q)"
    and r: "r = sgv_shrink_pool pf pool nr after cur_time sb"
    and sc: "sc = sgv_pool_put pf pool (snd r)"
  shows "fst r - sgv_pages_total sc = nr - sgv_pages_total s
       \<and> sgv_hi_wmk sc = sgv_hi_wmk s \<and> shrink_ready sc"
proof -
  from ready have inv: "act_inv s"
    and refs: "\<And>p. p \<in> set (act_list s) \<Longrightarrow> sgv_pool_ref (pool_at s p) \<noteq> 0"
    by (auto simp: shrink_ready_def list_all_iff)
  have pin: "pool \<in> set (act_list s)" by (rule shrink_sel_in[OF inv sel])
  have al2: "act_list sb = act_list s" "sgv_active_pools_list sb = sgv_active_pools_list s"
    by (simp_all add: sb act_list_def sgv_pool_get_def upd_pool_def)
  have cur2: "sgv_cur_purge_pool sb = nx" by (simp add: sb)
  have inv2: "act_inv sb"
    unfolding act_inv_def al2 cur2 nx
    by (auto split: option.splits dest: list_next_in list_first_in)
  have ref2: "sgv_pool_ref (pool_at sb q)
                = (if q = pool then sgv_pool_ref (pool_at s q) + 1 else sgv_pool_ref (pool_at s q))" for q
    by (simp add: sb sgv_pool_get_def upd_pool_def)
  have tot2: "sgv_pages_total sb = sgv_pages_total s" "sgv_hi_wmk sb = sgv_hi_wmk s"
    by (simp_all add: sb sgv_pool_get_def upd_pool_def)
  from shrink_pool_loop_inv[of pf pool after cur_time nr 0 sb]
  have d: "fst r - sgv_pages_total (snd r) = nr - sgv_pages_total sb"
    and k: "shrink_keeps sb (snd r)"
    by (simp_all add: r sgv_shrink_pool_def)
  from k have ref3: "\<And>q. sgv_pool_ref (pool_at (snd r) q) = sgv_pool_ref (pool_at sb q)"
    and hi3: "sgv_hi_wmk (snd r) = sgv_hi_wmk sb"
    and al3: "set (act_list (snd r)) \<subseteq> set (act_list sb)"
    and st3: "act_step sb (snd r)"
    by (auto simp: shrink_keeps_def)
  from st3 inv2 have inv3: "act_inv (snd r)" by (simp add: act_step_def)
  have "sgv_pool_ref (pool_at (snd r) pool) \<noteq> 1"
    using refs[OF pin] by (simp add: ref3 ref2)
  from put_after_get[OF this]
  have sc': "sc = upd_pool (snd r) pool (\<lambda>p. p\<lparr>sgv_pool_ref := sgv_pool_ref p - 1\<rparr>)"
    by (simp add: sc)
  have tot: "sgv_pages_total sc = sgv_pages_total (snd r)" "sgv_hi_wmk sc = sgv_hi_wmk (snd r)"
    "act_list sc = act_list (snd r)" "sgv_cur_purge_pool sc = sgv_cur_purge_pool (snd r)"
    by (simp_all add: sc' upd_pool_def act_list_def)
  have refc: "sgv_pool_ref (pool_at sc q) = sgv_pool_ref (pool_at s q)" for q
    by (simp add: sc' upd_pool_def ref3 ref2)
  have invc: "act_inv sc" using inv3 by (simp add: act_inv_def tot cong: option.case_cong)
  have "list_all (\<lambda>p. sgv_pool_ref (pool_at sc p) \<noteq> 0) (act_list sc)"
    using al3 refs by (auto simp: list_all_iff refc tot al2)
  with invc have "shrink_ready sc" by (simp add: shrink_ready_def)
  then show ?thesis using d tot tot2 hi3 by simp
qed

lemma shrink_loop_inv:
  "shrink_ready s \<Longrightarrow>
     fst (sgv_shrink_loop pf after cur_time nr prev_nr circle s)
       - sgv_pages_total (snd (sgv_shrink_loop pf after cur_time nr prev_nr circle s))
       = nr - sgv_pages_total s
     \<and> sgv_hi_wmk (snd (sgv_shrink_loop pf after cur_time nr prev_nr circle s)) = sgv_hi_wmk s
     \<and> shrink_ready (snd (sgv_shrink_loop pf after cur_time nr prev_nr circle s))"
proof (induction pf after cur_time nr prev_nr circle s rule: sgv_shrink_loop.induct)
  case (1 pf after cur_time nr prev_nr circle s)
  note ready = "1.prems"
  show ?case
  proof (cases "0 < nr")
    case False
    then show ?thesis using ready by (subst sgv_shrink_loop.simps, simp)+
  next
    case pos: True
    show ?thesis
    proof (cases "shrink_pool_sel s")
      case None
      then have sel0: "(case sgv_cur_purge_pool s of
                          None \<Rightarrow> list_first (list_of_dlist (sgv_active_pools_list s))
                        | Some p \<Rightarrow> Some p) = None"
        by (simp add: shrink_pool_sel_def act_list_def cong: option.case_cong)
      have "sgv_shrink_loop pf after cur_time nr prev_nr circle s = (nr, s)"
        using pos sel0 by (subst sgv_shrink_loop.simps) (simp add: Let_def)
      then show ?thesis using ready by simp
    next
      case (Some pool)
      let ?al = "list_of_dlist (sgv_active_pools_list s)"
      let ?s1 = "sgv_pool_get pool s"
      let ?next = "list_next ?al pool"
      from ready have inv: "act_inv s"
        and refs: "\<And>p. p \<in> set (act_list s) \<Longrightarrow> sgv_pool_ref (pool_at s p) \<noteq> 0"
        by (auto simp: shrink_ready_def list_all_iff)
      have pin: "pool \<in> set (act_list s)" by (rule shrink_sel_in[OF inv Some])
      have sel': "(case sgv_cur_purge_pool s of None \<Rightarrow> list_first ?al | Some p \<Rightarrow> Some p)
                    = Some pool"
        using Some by (simp add: shrink_pool_sel_def act_list_def cong: option.case_cong)
      show ?thesis
      proof (cases "?next = None \<and> circle \<and> prev_nr = nr")
        case True
        have e: "sgv_shrink_loop pf after cur_time nr prev_nr circle s
                   = (nr, sgv_pool_put pf pool ?s1)"
          using pos sel' True by (subst sgv_shrink_loop.simps) (simp add: Let_def)
        have "sgv_pool_ref (pool_at ?s1 pool) \<noteq> 1"
          using refs[OF pin] by (simp add: sgv_pool_get_def upd_pool_def)
        from put_after_get[OF this]
        have p: "sgv_pool_put pf pool ?s1 = s"
          by (simp add: sgv_pool_get_def upd_pool_def)
        show ?thesis unfolding e p using ready by simp
      next
        case False
        let ?circle1 = "if ?next = None then True else circle"
        let ?prev1 = "if ?next = None then nr else prev_nr"
        let ?next1 = "case ?next of None \<Rightarrow> list_first ?al | Some q \<Rightarrow> Some q"
        let ?s2 = "?s1\<lparr>sgv_cur_purge_pool := ?next1\<rparr>"
        let ?r = "sgv_shrink_pool pf pool nr after cur_time ?s2"
        let ?s3 = "sgv_pool_put pf pool (snd ?r)"
        have e: "sgv_shrink_loop pf after cur_time nr prev_nr circle s
                   = sgv_shrink_loop pf after cur_time (fst ?r) ?prev1 ?circle1 ?s3"
          using pos sel' False by (subst sgv_shrink_loop.simps) (auto simp: Let_def)
        from shrink_round_inv[OF ready Some refl refl refl refl, of pf nr after cur_time,
               unfolded act_list_def]
        have rd: "fst ?r - sgv_pages_total ?s3 = nr - sgv_pages_total s"
          and hi: "sgv_hi_wmk ?s3 = sgv_hi_wmk s" and r3: "shrink_ready ?s3"
          by simp_all
        from "1.IH"[OF pos refl sel' refl refl False refl refl refl refl refl refl r3]
        show ?thesis unfolding e using rd hi by simp
      qed
    qed
  qed
qed


text \<open>
  Claim C1. For a request of \<open>n\<close> pages the gate succeeds at once when
  \<open>sgv_pages_total + n \<le> sgv_hi_wmk\<close> and commits by adding \<open>n\<close>. Otherwise it
  runs the shrinker for \<open>sgv_pages_total + n - sgv_hi_wmk\<close> pages with age floor 0;
  afterwards it commits, adding \<open>n\<close>, if the counter the shrinker left plus \<open>n\<close>
  is within the watermark, and otherwise fails with \<open>-ENOMEM\<close> and leaves the
  counter as the shrinker left it. A success never leaves the counter above the
  watermark. This holds for a request and a counter that are \<^verbatim>\<open>int\<close> values, as
  long as the values the code forms fit in an \<^verbatim>\<open>int\<close> as well: the counter after
  the shrinking, the counter plus \<open>n\<close> before and after the shrinking, and the
  number of pages to shrink.
\<close>

theorem sgv_hiwmk_check_spec:
  fixes pf :: platform and n :: int and s :: sgv_state
  defines "s1 \<equiv> snd (uu_sgv_shrink pf (sgv_pages_total s + n - sgv_hi_wmk s) 0
                       (s\<lparr>sgv_releases_on_hiwmk := sgv_releases_on_hiwmk s + 1\<rparr>))"
  assumes ready: "shrink_ready s"
    and request: "is_int32 n"
    and counter: "is_int32 (sgv_pages_total s)"
    and sum_fits: "is_int32 (sgv_pages_total s + n)"
    and excess_fits: "sgv_pages_total s + n - sgv_hi_wmk s \<le> INT_MAX"
    and counter_after: "is_int32 (sgv_pages_total s1)"
    and sum_after_fits: "is_int32 (sgv_pages_total s1 + n)"
  shows "(sgv_pages_total s + n \<le> sgv_hi_wmk s \<longrightarrow>
            sgv_hiwmk_check pf n s = (0, s\<lparr>sgv_pages_total := sgv_pages_total s + n\<rparr>))
       \<and> (sgv_hi_wmk s < sgv_pages_total s + n \<longrightarrow>
            sgv_hiwmk_check pf n s =
              (if sgv_pages_total s1 + n \<le> sgv_hi_wmk s
               then (0, s1\<lparr>sgv_pages_total := sgv_pages_total s1 + n\<rparr>)
               else (- ENOMEM,
                     s1\<lparr>sgv_releases_on_hiwmk_failed :=
                           sgv_releases_on_hiwmk_failed s1 + 1\<rparr>)))
       \<and> (fst (sgv_hiwmk_check pf n s) = 0 \<longrightarrow>
            sgv_pages_total (snd (sgv_hiwmk_check pf n s)) \<le> sgv_hi_wmk s)"
proof -
  let ?s0 = "s\<lparr>sgv_releases_on_hiwmk := sgv_releases_on_hiwmk s + 1\<rparr>"
  let ?nr = "sgv_pages_total s + n - sgv_hi_wmk s"
  let ?r = "uu_sgv_shrink pf ?nr 0 ?s0"
  have s1: "s1 = snd ?r" by (simp add: s1_def)
  have r0: "shrink_ready ?s0"
    using ready by (simp add: shrink_ready_def act_inv_def act_list_def cong: option.case_cong)
  from shrink_loop_inv[OF r0, of pf 0 "jiffies ?s0" ?nr ?nr False]
  have d: "fst ?r - sgv_pages_total (snd ?r) = ?nr - sgv_pages_total s"
    by (simp add: uu_sgv_shrink_def)
  then have dec: "0 < fst ?r \<longleftrightarrow> \<not> sgv_pages_total (snd ?r) + n \<le> sgv_hi_wmk s"
    by linarith
  have i1: "int32 (n + sgv_pages_total s) = sgv_pages_total s + n"
    using int32_id[OF sum_fits] by (simp add: add.commute)
  have i1': "int32 (sgv_pages_total s + n) = sgv_pages_total s + n"
    using int32_id[OF sum_fits] .
  have i2: "sgv_hi_wmk s < sgv_pages_total s + n \<Longrightarrow> int32 ?nr = ?nr"
    using excess_fits by (intro int32_id) (simp add: is_int32_def INT_MIN_def)
  have i3: "int32 (sgv_pages_total (snd ?r) + n) = sgv_pages_total (snd ?r) + n"
    using int32_id[OF sum_after_fits] by (simp add: s1)
  have a: "sgv_pages_total s + n \<le> sgv_hi_wmk s \<Longrightarrow>
            sgv_hiwmk_check pf n s = (0, s\<lparr>sgv_pages_total := sgv_pages_total s + n\<rparr>)"
    by (simp add: sgv_hiwmk_check_def Let_def i1 i1')
  have b: "sgv_hi_wmk s < sgv_pages_total s + n \<Longrightarrow>
             sgv_hiwmk_check pf n s =
                  (if sgv_pages_total (snd ?r) + n \<le> sgv_hi_wmk s
                   then (0, (snd ?r)\<lparr>sgv_pages_total := sgv_pages_total (snd ?r) + n\<rparr>)
                   else (- ENOMEM,
                         (snd ?r)\<lparr>sgv_releases_on_hiwmk_failed :=
                               sgv_releases_on_hiwmk_failed (snd ?r) + 1\<rparr>))"
    using dec by (simp add: sgv_hiwmk_check_def Let_def i1 i2 i3)
  have c: "fst (sgv_hiwmk_check pf n s) = 0 \<Longrightarrow>
            sgv_pages_total (snd (sgv_hiwmk_check pf n s)) \<le> sgv_hi_wmk s"
  proof (cases "sgv_pages_total s + n \<le> sgv_hi_wmk s")
    case True
    then show ?thesis by (simp add: a)
  next
    case False
    assume z: "fst (sgv_hiwmk_check pf n s) = 0"
    from False have "sgv_hi_wmk s < sgv_pages_total s + n" by simp
    from b[OF this] z show ?thesis by (auto simp: ENOMEM_def split: if_splits)
  qed
  from a b c show ?thesis by (simp add: s1)
qed

text \<open>
  The state with two cached pages, under a watermark of two pages: one more page is
  granted after the older object is evicted.
\<close>

definition hiwmk_state :: sgv_state where
  "hiwmk_state = purge_state\<lparr>sgv_hi_wmk := 2, sgv_lo_wmk := 0\<rparr>"

theorem sgv_hiwmk_check_spec_witness:
  "shrink_ready hiwmk_state
   \<and> is_int32 1
   \<and> is_int32 (sgv_pages_total hiwmk_state)
   \<and> is_int32 (sgv_pages_total hiwmk_state + 1)
   \<and> sgv_pages_total hiwmk_state + 1 - sgv_hi_wmk hiwmk_state \<le> INT_MAX
   \<and> is_int32 (sgv_pages_total
                 (snd (uu_sgv_shrink pf_4k
                         (sgv_pages_total hiwmk_state + 1 - sgv_hi_wmk hiwmk_state) 0
                         (hiwmk_state\<lparr>sgv_releases_on_hiwmk :=
                                        sgv_releases_on_hiwmk hiwmk_state + 1\<rparr>))))
   \<and> is_int32 (sgv_pages_total
                 (snd (uu_sgv_shrink pf_4k
                         (sgv_pages_total hiwmk_state + 1 - sgv_hi_wmk hiwmk_state) 0
                         (hiwmk_state\<lparr>sgv_releases_on_hiwmk :=
                                        sgv_releases_on_hiwmk hiwmk_state + 1\<rparr>))) + 1)
   \<and> sgv_hi_wmk hiwmk_state < sgv_pages_total hiwmk_state + 1
   \<and> fst (sgv_hiwmk_check pf_4k 1 hiwmk_state) = 0
   \<and> sgv_pages_total (snd (sgv_hiwmk_check pf_4k 1 hiwmk_state)) = 2
   \<and> pages_live (snd (sgv_hiwmk_check pf_4k 1 hiwmk_state)) = {#8#}"
proof -
  have rd: "shrink_ready hiwmk_state"
    by (simp add: shrink_ready_def act_inv_def act_list_def hiwmk_state_def purge_state_def
          boot_state_def fresh_pool_def)
  have ov: "sgv_hi_wmk hiwmk_state < sgv_pages_total hiwmk_state + 1"
    by (simp add: hiwmk_state_def purge_state_def)
  let ?s1 = "snd (uu_sgv_shrink pf_4k (sgv_pages_total hiwmk_state + 1 - sgv_hi_wmk hiwmk_state) 0
                (hiwmk_state\<lparr>sgv_releases_on_hiwmk := sgv_releases_on_hiwmk hiwmk_state + 1\<rparr>))"
  have ev: "sgv_pages_total ?s1 = 1 \<and> pages_live ?s1 = {#8#}"
    by (simp add: uu_sgv_shrink_def sgv_shrink_loop.simps sgv_shrink_pool_def
          sgv_shrink_pool_loop.simps sgv_purge_from_cache_def time_after_eq_def
          sgv_pool_get_def sgv_pool_put_def list_first_def sgv_dtor_and_free_def
          free_sys_closed entry_pfns_def len_to_pages_def page_to_pfn_def
          purge_unfold hiwmk_state_def purge_state_def cached_obj_def
          boot_state_def fresh_pool_def zero_obj_def order_pages_def MAX_PAGES_PER_POOL_def)
  have hi: "sgv_hi_wmk hiwmk_state = 2" and tot: "sgv_pages_total hiwmk_state = 2"
    by (simp_all add: hiwmk_state_def purge_state_def)
  have f1: "is_int32 (sgv_pages_total hiwmk_state + 1)"
    and f2: "sgv_pages_total hiwmk_state + 1 - sgv_hi_wmk hiwmk_state \<le> INT_MAX"
    and t1: "is_int32 1" and t2: "is_int32 (sgv_pages_total hiwmk_state)"
    by (simp_all add: hi tot is_int32_def INT_MIN_def INT_MAX_def)
  have f3: "is_int32 (sgv_pages_total ?s1 + 1)" and f4: "is_int32 (sgv_pages_total ?s1)"
    using ev by (simp_all add: is_int32_def INT_MIN_def INT_MAX_def)
  from sgv_hiwmk_check_spec[OF rd t1 t2 f1 f2 f4 f3] ov ev t1 t2 f1 f2 f3 f4
  show ?thesis by (simp add: rd hi)
qed

text \<open>
  At the end of the range the gate's sum wraps around as the code's does: with one page
  counted, a request of \<open>INT_MAX\<close> pages is granted and the counter reads
  \<open>INT_MIN\<close>.
\<close>

lemma sgv_hiwmk_check_wraps:
  "sgv_hiwmk_check pf_4k INT_MAX ((boot_state 100 50)\<lparr>sgv_pages_total := 1\<rparr>)
     = (0, (boot_state 100 50)\<lparr>sgv_pages_total := INT_MIN\<rparr>)"
  by (simp add: sgv_hiwmk_check_def Let_def int32_def INT_MAX_def INT_MIN_def boot_state_def)


section \<open>The uncached helper under \<^verbatim>\<open>__GFP_NOFAIL\<close> (claim C10)\<close>

lemma alloc_pages_frame:
  "snd (alloc_pages s) = s\<lparr>page_src := page_src (snd (alloc_pages s)),
                           pages_live := pages_live (snd (alloc_pages s))\<rparr>"
  by (simp add: alloc_pages_def split: list.splits option.splits)

lemma fill_loop_frame:
  "sgv_fill_loop pf ct n sg c m s = (ok, sg', c', s') \<Longrightarrow>
     s' = s\<lparr>page_src := page_src s', pages_live := pages_live s'\<rparr>"
proof (induction n arbitrary: sg c m s)
  case 0
  then show ?case by simp
next
  case (Suc n)
  obtain pg s1 where a: "alloc_pages s = (pg, s1)" by force
  then have f: "s1 = s\<lparr>page_src := page_src s1, pages_live := pages_live s1\<rparr>"
    using alloc_pages_frame[of s] by simp
  show ?case
  proof (cases pg)
    case None
    with Suc.prems a f show ?thesis by (simp add: sgv_alloc_sys_pages_def)
  next
    case (Some page)
    with Suc.prems a obtain sg2 c2 m2 where
      "sgv_fill_loop pf ct n sg2 c2 m2 s1 = (ok, sg', c', s')"
      by (auto simp: sgv_alloc_sys_pages_def split: prod.splits)
    from Suc.IH[OF this] have ih: "s' = s1\<lparr>page_src := page_src s', pages_live := pages_live s'\<rparr>" .
    have "s1\<lparr>page_src := page_src s', pages_live := pages_live s'\<rparr>
            = s\<lparr>page_src := page_src s', pages_live := pages_live s'\<rparr>"
      by (subst f) simp
    with ih show ?thesis by simp
  qed
qed

lemma fill_loop_no_clustering:
  "sgv_fill_loop pf sgv_no_clustering n sg c m s = (ok, sg', c', s') \<Longrightarrow>
     (ok \<longrightarrow> c' = c + n)
     \<and> (ok \<longleftrightarrow> n \<le> length (page_src s) \<and> list_all (\<lambda>x. x \<noteq> None) (take n (page_src s)))"
proof (induction n arbitrary: sg c m s)
  case 0
  then show ?case by simp
next
  case (Suc n)
  show ?case
  proof (cases "page_src s")
    case Nil
    with Suc.prems show ?thesis
      by (simp add: sgv_alloc_sys_pages_def alloc_pages_def)
  next
    case (Cons x xs)
    show ?thesis
    proof (cases x)
      case None
      with Cons Suc.prems show ?thesis
        by (simp add: sgv_alloc_sys_pages_def alloc_pages_def)
    next
      case (Some page)
      let ?s1 = "s\<lparr>page_src := xs, pages_live := add_mset page (pages_live s)\<rparr>"
      from Some Cons Suc.prems obtain sg2 where
        "sgv_fill_loop pf sgv_no_clustering n sg2 (c + 1) (- 1) ?s1 = (ok, sg', c', s')"
        by (auto simp: sgv_alloc_sys_pages_def alloc_pages_def)
      from Suc.IH[OF this] Cons Some show ?thesis by simp
    qed
  qed
qed


lemma alloc_sg_entries_plain:
  assumes "sgv_alloc_sg_entries pf sg pages sgv_no_clustering None s = (cnt, sg', tt, s')"
  shows "sgv_pages_total s' = sgv_pages_total s"
    and "0 < cnt \<longleftrightarrow>
           0 < pages \<and> nat pages \<le> length (page_src s)
           \<and> list_all (\<lambda>x. x \<noteq> None) (take (nat pages) (page_src s))"
    and "0 < cnt \<Longrightarrow> cnt = pages"
    and "0 \<le> cnt"
proof -
  obtain ok sg1 c1 s1 where f:
    "sgv_fill_loop pf sgv_no_clustering (nat pages) sg 0 (- 1) s = (ok, sg1, c1, s1)"
    using prod_cases4 by blast
  note fr = fill_loop_frame[OF f] and nc = fill_loop_no_clustering[OF f]
  have t1: "sgv_pages_total s1 = sgv_pages_total s" by (subst fr) simp
  from assms f have c: "cnt = (if ok then int c1 else 0)"
    and s': "s' = (if ok then s1 else sgv_free_sys_sg_entries pf s1 sg1 (int c1))"
    by (auto simp: sgv_alloc_sg_entries_def split: bool.splits)
  show "sgv_pages_total s' = sgv_pages_total s"
    by (simp add: s' t1 free_sys_closed)
  show "0 < cnt \<longleftrightarrow>
           0 < pages \<and> nat pages \<le> length (page_src s)
           \<and> list_all (\<lambda>x. x \<noteq> None) (take (nat pages) (page_src s))"
    using nc c by auto
  show "0 < cnt \<Longrightarrow> cnt = pages" using nc c by (auto split: if_splits)
  show "0 \<le> cnt" using c by simp
qed

lemma kmalloc_frame:
  "sgv_pages_total (snd (kmalloc s)) = sgv_pages_total s"
  "page_src (snd (kmalloc s)) = page_src s"
  "fst (kmalloc s) \<noteq> None \<longleftrightarrow> (\<exists>a rest. kmalloc_src s = Some a # rest)"
  by (auto simp: kmalloc_def split: list.splits)

text \<open>
  Claim C10. Let \<open>base\<close> be the page counter as the gate's shrinking left it, before
  the request is counted. With \<^verbatim>\<open>__GFP_NOFAIL\<close> set, \<^verbatim>\<open>scst_alloc\<close> leaves the
  counter at \<open>base\<close> plus the requested pages in every outcome: when the gate
  refuses, the pages are added all the same, and neither a failed \<^verbatim>\<open>kmalloc\<close> nor a
  failed page allocation takes them off again. Whether a vector is returned depends on
  \<^verbatim>\<open>kmalloc\<close> and the page supply alone, not on the gate. When a vector is
  returned its count is the number of pages, and \<^verbatim>\<open>scst_free\<close> of it brings the
  counter back to \<open>base\<close>.
\<close>

theorem scst_alloc_nofail:
  fixes pf :: platform and sz :: int and cnt :: int and s :: sgv_state
  defines "pages \<equiv> sz div int (PAGE_SIZE pf) + (if sz mod int (PAGE_SIZE pf) \<noteq> 0 then 1 else 0)"
  defines "gate \<equiv> sgv_hiwmk_check pf pages
                   (s\<lparr>sgv_other_total_alloc := sgv_other_total_alloc s + 1\<rparr>)"
  defines "R \<equiv> scst_alloc pf sz True cnt s"
  defines "base \<equiv> sgv_pages_total (snd gate) - (if fst gate = 0 then pages else 0)"
  shows "sgv_pages_total (snd (snd R)) = base + pages
       \<and> (fst R \<noteq> None \<longleftrightarrow>
            (\<exists>a rest. kmalloc_src (snd gate) = Some a # rest)
            \<and> 0 < pages \<and> nat pages \<le> length (page_src (snd gate))
            \<and> list_all (\<lambda>x. x \<noteq> None) (take (nat pages) (page_src (snd gate))))
       \<and> (\<forall>sg. fst R = Some sg \<longrightarrow>
            fst (snd R) = pages
            \<and> sgv_pages_total (scst_free pf sg (fst (snd R)) (snd (snd R))) = base)"
proof -
  obtain r s1 where g: "gate = (r, s1)" by force
  let ?s2 = "if r \<noteq> 0 then sgv_hiwmk_uncheck (- pages) s1 else s1"
  have t2: "sgv_pages_total ?s2 = base + pages"
    by (simp add: base_def g sgv_hiwmk_uncheck_def)
  have p2: "page_src ?s2 = page_src s1" "kmalloc_src ?s2 = kmalloc_src s1"
    by (simp_all add: sgv_hiwmk_uncheck_def)
  obtain a s3 where k: "kmalloc ?s2 = (a, s3)" by force
  from kmalloc_frame[of ?s2] k
  have t3: "sgv_pages_total s3 = base + pages" and p3: "page_src s3 = page_src s1"
    and a3: "a \<noteq> None \<longleftrightarrow> (\<exists>a rest. kmalloc_src s1 = Some a # rest)"
    by (simp_all add: t2 p2)
  obtain c1 sg1 tt1 s4 where f:
    "sgv_alloc_sg_entries pf (sg_init_table pages) pages sgv_no_clustering None s3
       = (c1, sg1, tt1, s4)"
    using prod_cases4 by blast
  note af = alloc_sg_entries_plain[OF f]
  have R: "R = (case a of None \<Rightarrow> (None, cnt, s3)
                | Some x \<Rightarrow> if c1 \<le> 0 then (None, c1, s4) else (Some sg1, c1, s4))"
    using g k f
    unfolding R_def scst_alloc_def pages_def[symmetric] Let_def gate_def[symmetric]
    by (auto split: option.splits)
  show ?thesis
  proof (cases a)
    case None
    with R a3 t3 show ?thesis by (simp add: g)
  next
    case (Some x)
    show ?thesis
    proof (cases "c1 \<le> 0")
      case True
      with R Some af(1,2) t3 p3 a3 show ?thesis by (auto simp: g)
    next
      case False
      then have pos: "0 < c1" by simp
      with af(3) have cp: "c1 = pages" by simp
      have fr: "sgv_pages_total (scst_free pf sg1 c1 s4) = base"
        by (simp add: scst_free_def free_sys_closed sgv_hiwmk_uncheck_def af(1) t3 cp)
      from R Some False af(1,2) t3 p3 a3 pos cp fr show ?thesis by (auto simp: g)
    qed
  qed
qed


text \<open>A system booted with a high watermark of 0 pages: the gate refuses every request.\<close>

definition nofail_s0 :: sgv_state where
  "nofail_s0 = (boot_state 0 0)\<lparr>kmalloc_src := [Some 500], page_src := [Some 7]\<rparr>"

theorem scst_alloc_nofail_witness:
  "fst (sgv_hiwmk_check pf_4k 1
          (nofail_s0\<lparr>sgv_other_total_alloc := sgv_other_total_alloc nofail_s0 + 1\<rparr>)) = - ENOMEM
   \<and> sgv_pages_total nofail_s0 = 0
   \<and> fst (scst_alloc pf_4k 4096 True 0 nofail_s0)
        = Some [\<lparr>sg_page = Some 7, sg_offset = 0, sg_length = 4096\<rparr>]
   \<and> fst (snd (scst_alloc pf_4k 4096 True 0 nofail_s0)) = 1
   \<and> sgv_pages_total (snd (snd (scst_alloc pf_4k 4096 True 0 nofail_s0))) = 1
   \<and> sgv_pages_total
        (scst_free pf_4k [\<lparr>sg_page = Some 7, sg_offset = 0, sg_length = 4096\<rparr>] 1
           (snd (snd (scst_alloc pf_4k 4096 True 0 nofail_s0)))) = 0"
proof -
  have pg: "(4096::int) div int (PAGE_SIZE pf_4k)
              + (if (4096::int) mod int (PAGE_SIZE pf_4k) \<noteq> 0 then 1 else 0) = 1"
    by simp
  let ?g = "sgv_hiwmk_check pf_4k 1
          (nofail_s0\<lparr>sgv_other_total_alloc := sgv_other_total_alloc nofail_s0 + 1\<rparr>)"
  have g: "fst ?g = - ENOMEM" "sgv_pages_total (snd ?g) = 0"
    by (simp_all add: sgv_hiwmk_check_def uu_sgv_shrink_def sgv_shrink_loop.simps list_first_def
          nofail_s0_def boot_state_def Let_def Dlist.empty_def int32_def)
  have t0: "sgv_pages_total nofail_s0 = 0" by (simp add: nofail_s0_def boot_state_def)
  have r: "fst (scst_alloc pf_4k 4096 True 0 nofail_s0)
        = Some [\<lparr>sg_page = Some 7, sg_offset = 0, sg_length = 4096\<rparr>]"
    by (simp add: scst_alloc_def Let_def sgv_hiwmk_check_def uu_sgv_shrink_def
          sgv_shrink_loop.simps list_first_def nofail_s0_def boot_state_def Dlist.empty_def
          sgv_hiwmk_uncheck_def kmalloc_def sgv_alloc_sg_entries_def sg_init_table_def
          sgv_alloc_sys_pages_def alloc_pages_def sg_clear_def ENOMEM_def)
  from scst_alloc_nofail[of pf_4k 4096 0 nofail_s0] r g
  show ?thesis
    unfolding pg by (auto simp: t0 ENOMEM_def)
qed


section \<open>The translation table (claim C5)\<close>

text \<open>
  The pages an entry holds, as the loop of \<^verbatim>\<open>sgv_alloc_sg_entries\<close> counts them, and
  the page index at which entry \<open>i\<close> begins: the pages of the entries in front of
  it. This is the value of the loop's \<open>pg\<close> when it reaches entry \<open>i\<close>.
\<close>

definition entry_pages :: "platform \<Rightarrow> scatterlist \<Rightarrow> nat" where
  "entry_pages pf e = len_to_pages pf (sg_length e)"

definition entry_first_page :: "platform \<Rightarrow> scatterlist list \<Rightarrow> nat \<Rightarrow> nat" where
  "entry_first_page pf sg i = (\<Sum>k\<leftarrow>[0..<i]. entry_pages pf (sg ! k))"

text \<open>
  The state of the page loop after \<open>d\<close> pages with \<open>c\<close> entries in use: the
  entries in use hold pages, \<open>d\<close> in all, and the entries behind them are empty.
\<close>

definition fill_inv :: "platform \<Rightarrow> scatterlist list \<Rightarrow> nat \<Rightarrow> nat \<Rightarrow> bool" where
  "fill_inv pf sg c d \<longleftrightarrow>
     c \<le> d \<and> (0 < d \<longrightarrow> 0 < c)
     \<and> (\<forall>i<c. 0 < sg_length (sg ! i))
     \<and> (\<forall>i. c \<le> i \<and> i < length sg \<longrightarrow> sg_length (sg ! i) = 0)
     \<and> sum_list (map (entry_pages pf) sg) = d"

lemma sum_list_map_update:
  "i < length xs \<Longrightarrow>
     sum_list (map f (xs[i := x])) + f (xs ! i) = sum_list (map f xs) + (f x :: nat)"
proof (induction xs arbitrary: i)
  case Nil
  then show ?case by simp
next
  case (Cons a xs)
  then show ?case by (cases i) auto
qed

lemma entry_pages_zero [simp]: "sg_length e = 0 \<Longrightarrow> entry_pages pf e = 0"
  by (simp add: entry_pages_def len_to_pages_def)

lemma entry_pages_page:
  "sg_length e = PAGE_SIZE pf \<Longrightarrow> entry_pages pf e = 1"
  using PAGE_SIZE_pos[of pf] by (simp add: entry_pages_def len_to_pages_def)

lemma entry_pages_grow:
  "sg_length e' = sg_length e + PAGE_SIZE pf \<Longrightarrow> entry_pages pf e' = entry_pages pf e + 1"
  using PAGE_SIZE_pos[of pf] by (simp add: entry_pages_def len_to_pages_def div_add_self2)

lemma full_clustering_scan_less:
  "full_clustering_scan pf sg cur n = Some (i, l) \<Longrightarrow> i < n"
  by (induction n) (auto split: option.splits)

text \<open>What either clustering check does to the entry lengths.\<close>

definition merged_into :: "scatterlist list \<Rightarrow> nat \<Rightarrow> nat \<Rightarrow> scatterlist list \<Rightarrow> bool" where
  "merged_into sg cur i sg' \<longleftrightarrow>
     i < cur \<and> length sg' = length sg
     \<and> sg_length (sg' ! i) = sg_length (sg ! i) + sg_length (sg ! cur)
     \<and> sg_length (sg' ! cur) = 0
     \<and> (\<forall>k. k \<noteq> i \<and> k \<noteq> cur \<longrightarrow> sg' ! k = sg ! k)"

lemma full_clustering_shape:
  assumes "sgv_check_full_clustering pf sg cur hint = (r, sg')" "hint < int cur"
    "cur < length sg"
  shows "(r = - 1 \<and> sg' = sg) \<or> (\<exists>i. r = int i \<and> merged_into sg cur i sg')"
proof -
  define hinted where "hinted = (if 0 \<le> hint
                    then (case full_clustering_test pf sg cur (nat hint) of
                            Some l \<Rightarrow> Some (nat hint, l)
                          | None \<Rightarrow> None)
                    else None)"
  define found where "found = (case hinted of
                     Some r \<Rightarrow> Some r
                   | None \<Rightarrow> full_clustering_scan pf sg cur cur)"
  have h: "hinted = Some (i, l) \<Longrightarrow> i < cur" for i l
    using assms(2) by (auto simp: hinted_def split: if_splits option.splits)
  have f: "found = Some (i, l) \<Longrightarrow> i < cur" for i l
    using h full_clustering_scan_less by (auto simp: found_def split: option.splits)
  have r: "(r, sg') = (case found of
           None \<Rightarrow> (- 1, sg)
         | Some (i, out_tail) \<Rightarrow>
             (int i,
              (sg[i := (sg ! i)\<lparr>sg_length := sg_length (sg ! i) + sg_length (sg ! cur)\<rparr>])
                [cur := sg_clear])
         | Some (i, out_head) \<Rightarrow>
             (int i,
              (sg[i := (sg ! i)\<lparr>sg_page := sg_page (sg ! cur),
                                sg_length := sg_length (sg ! i) + sg_length (sg ! cur)\<rparr>])
                [cur := sg_clear]))"
    using assms(1) unfolding sgv_check_full_clustering_def Let_def found_def hinted_def by simp
  show ?thesis
  proof (cases found)
    case None
    then show ?thesis using r by simp
  next
    case (Some p)
    obtain i l where p: "p = (i, l)" by (cases p)
    have "i < cur" using f Some p by simp
    then show ?thesis using r Some p assms(3)
      by (cases l) (auto simp: merged_into_def sg_clear_def)
  qed
qed

lemma tail_clustering_shape:
  assumes "sgv_check_tail_clustering pf sg cur hint = (r, sg')" "cur < length sg"
  shows "(r = - 1 \<and> sg' = sg) \<or> (\<exists>i. r = int i \<and> merged_into sg cur i sg')"
proof (cases "r = - 1")
  case True
  then show ?thesis using assms
    by (auto simp: sgv_check_tail_clustering_def Let_def split: if_splits)
next
  case False
  then have "0 < cur" "r = int (cur - 1)"
    and "sg' = (sg[cur - 1 := (sg ! (cur - 1))\<lparr>sg_length := sg_length (sg ! (cur - 1))
                                                        + sg_length (sg ! cur)\<rparr>])
                 [cur := sg_clear]"
    using assms by (auto simp: sgv_check_tail_clustering_def Let_def split: if_splits)
  then have "r = int (cur - 1) \<and> merged_into sg cur (cur - 1) sg'"
    using assms(2) by (auto simp: merged_into_def sg_clear_def)
  then show ?thesis by blast
qed

lemma fill_inv_alloc:
  assumes "fill_inv pf sg c d" "c < length sg"
  shows "fill_inv pf (sg[c := \<lparr>sg_page = p, sg_offset = 0, sg_length = PAGE_SIZE pf\<rparr>])
           (Suc c) (Suc d)"
proof -
  let ?e = "\<lparr>sg_page = p, sg_offset = 0, sg_length = PAGE_SIZE pf\<rparr>"
  have z: "entry_pages pf (sg ! c) = 0" using assms by (simp add: fill_inv_def)
  have "sum_list (map (entry_pages pf) (sg[c := ?e])) + entry_pages pf (sg ! c)
          = sum_list (map (entry_pages pf) sg) + entry_pages pf ?e"
    using assms(2) by (rule sum_list_map_update)
  then have s: "sum_list (map (entry_pages pf) (sg[c := ?e])) = Suc d"
    using z assms(1) by (simp add: entry_pages_page fill_inv_def)
  show ?thesis
    unfolding fill_inv_def
    using assms s PAGE_SIZE_pos[of pf]
    by (auto simp: fill_inv_def nth_list_update less_Suc_eq)
qed

lemma sum_list_two:
  assumes "i < length xs" "j < length xs" "i \<noteq> j" "length ys = length xs"
    "\<forall>k. k \<noteq> i \<and> k \<noteq> j \<longrightarrow> ys ! k = xs ! k"
  shows "sum_list (map f ys) + f (xs ! i) + f (xs ! j)
           = sum_list (map f xs) + f (ys ! i) + (f (ys ! j) :: nat)"
proof -
  have "ys = xs[i := ys ! i, j := ys ! j]"
    using assms by (intro nth_equalityI) (auto simp: nth_list_update)
  then have e: "map f ys = (map f xs)[i := f (ys ! i), j := f (ys ! j)]"
    by (metis map_update)
  have a: "sum_list ((map f xs)[i := f (ys ! i)]) + f (xs ! i) = sum_list (map f xs) + f (ys ! i)"
    using sum_list_map_update[of i "map f xs" id "f (ys ! i)"] assms by simp
  have b: "sum_list ((map f xs)[i := f (ys ! i), j := f (ys ! j)]) + f (xs ! j)
             = sum_list ((map f xs)[i := f (ys ! i)]) + f (ys ! j)"
    using sum_list_map_update[of j "(map f xs)[i := f (ys ! i)]" id "f (ys ! j)"] assms by simp
  show ?thesis using a b e by simp
qed

lemma fill_inv_merge:
  assumes "fill_inv pf sg (Suc c) (Suc d)" "c < length sg" "merged_into sg c i sg'"
    "sg_length (sg ! c) = PAGE_SIZE pf" "0 < d \<or> 0 < c"
  shows "fill_inv pf sg' c (Suc d)"
proof -
  have i: "i < c" and len: "length sg' = length sg"
    and li: "sg_length (sg' ! i) = sg_length (sg ! i) + PAGE_SIZE pf"
    and lc: "sg_length (sg' ! c) = 0"
    and rest: "\<forall>k. k \<noteq> i \<and> k \<noteq> c \<longrightarrow> sg' ! k = sg ! k"
    using assms(3,4) by (auto simp: merged_into_def)
  have "sum_list (map (entry_pages pf) sg') + entry_pages pf (sg ! i) + entry_pages pf (sg ! c)
          = sum_list (map (entry_pages pf) sg) + entry_pages pf (sg' ! i)
              + entry_pages pf (sg' ! c)"
    using i assms(2) len rest by (intro sum_list_two) auto
  then have s: "sum_list (map (entry_pages pf) sg') = Suc d"
    using assms(1) lc entry_pages_grow[OF li] entry_pages_page[OF assms(4)]
    by (simp add: fill_inv_def)
  have pos: "\<forall>k<c. 0 < sg_length (sg' ! k)"
  proof (intro allI impI)
    fix k assume "k < c"
    then show "0 < sg_length (sg' ! k)"
      using assms(1) li rest PAGE_SIZE_pos[of pf]
      by (cases "k = i") (auto simp: fill_inv_def)
  qed
  have zero: "\<forall>k. c \<le> k \<and> k < length sg' \<longrightarrow> sg_length (sg' ! k) = 0"
  proof (intro allI impI)
    fix k assume "c \<le> k \<and> k < length sg'"
    then show "sg_length (sg' ! k) = 0"
      using assms(1) lc rest i len
      by (cases "k = c") (auto simp: fill_inv_def)
  qed
  have "c \<le> Suc d" using assms(1) by (simp add: fill_inv_def)
  moreover have "0 < c" using i by simp
  ultimately show ?thesis using s pos zero by (simp add: fill_inv_def)
qed

lemma fill_loop_inv:
  "sgv_fill_loop pf ct n sg c m s = (True, sg', c', s') \<Longrightarrow>
   fill_inv pf sg c d \<Longrightarrow> m < int c \<Longrightarrow> d + n \<le> length sg \<Longrightarrow>
   fill_inv pf sg' c' (d + n) \<and> length sg' = length sg"
proof (induction n arbitrary: sg c m s d)
  case 0
  then show ?case by simp
next
  case (Suc n)
  have cd: "c \<le> d" using Suc.prems(2) by (simp add: fill_inv_def)
  then have cl: "c < length sg" using Suc.prems(4) by simp
  obtain page s1 where a: "alloc_pages s = (page, s1)" by (cases "alloc_pages s")
  let ?sg1 = "sg[c := \<lparr>sg_page = page, sg_offset = 0, sg_length = PAGE_SIZE pf\<rparr>]"
  have sys: "sgv_alloc_sys_pages pf s sg c = (page, ?sg1, s1)"
    by (simp add: sgv_alloc_sys_pages_def a)
  obtain p where p: "page = Some p"
    using Suc.prems(1) sys by (cases page) auto
  obtain m1 sg2 where chk: "(if ct = sgv_full_clustering
                 then sgv_check_full_clustering pf ?sg1 c m
                 else if ct = sgv_tail_clustering
                 then sgv_check_tail_clustering pf ?sg1 c m
                 else (- 1, ?sg1)) = (m1, sg2)"
    by (metis surj_pair)
  have rec: "sgv_fill_loop pf ct n sg2 (if m1 = - 1 then c + 1 else c) m1 s1 = (True, sg', c', s')"
    using Suc.prems(1) sys chk unfolding p by simp
  have inv1: "fill_inv pf ?sg1 (Suc c) (Suc d)"
    using Suc.prems(2) cl by (rule fill_inv_alloc)
  have cl1: "c < length ?sg1" using cl by simp
  have shape: "(m1 = - 1 \<and> sg2 = ?sg1) \<or> (\<exists>i. m1 = int i \<and> merged_into ?sg1 c i sg2)"
  proof (cases "ct = sgv_full_clustering")
    case True
    then have "sgv_check_full_clustering pf ?sg1 c m = (m1, sg2)" using chk by simp
    then show ?thesis using Suc.prems(3) cl1 by (rule full_clustering_shape)
  next
    case nf: False
    show ?thesis
    proof (cases "ct = sgv_tail_clustering")
      case True
      then have "sgv_check_tail_clustering pf ?sg1 c m = (m1, sg2)" using chk nf by simp
      then show ?thesis using cl1 by (rule tail_clustering_shape)
    next
      case False
      then show ?thesis using chk nf by simp
    qed
  qed
  show ?case
  proof (cases "m1 = - 1")
    case True
    then have sg2: "sg2 = ?sg1" using shape by auto
    have r1: "sgv_fill_loop pf ct n ?sg1 (Suc c) m1 s1 = (True, sg', c', s')"
      using rec True sg2 by simp
    have "fill_inv pf sg' c' (Suc d + n) \<and> length sg' = length ?sg1"
      using r1 inv1
    proof (rule Suc.IH)
      show "m1 < int (Suc c)" using True by simp
      show "Suc d + n \<le> length ?sg1" using Suc.prems(4) by simp
    qed
    then show ?thesis by simp
  next
    case False
    then obtain i where i: "m1 = int i" "merged_into ?sg1 c i sg2" using shape by auto
    have ic: "i < c" and len2: "length sg2 = length sg" using i(2) by (auto simp: merged_into_def)
    have inv2: "fill_inv pf sg2 c (Suc d)"
      using inv1 cl1 i(2)
    proof (rule fill_inv_merge)
      show "sg_length (?sg1 ! c) = PAGE_SIZE pf" using cl by simp
      show "0 < d \<or> 0 < c" using ic by simp
    qed
    have r2: "sgv_fill_loop pf ct n sg2 c m1 s1 = (True, sg', c', s')"
      using rec False by simp
    have "fill_inv pf sg' c' (Suc d + n) \<and> length sg' = length sg2"
      using r2 inv2
    proof (rule Suc.IH)
      show "m1 < int c" using i(1) ic by simp
      show "Suc d + n \<le> length sg2" using Suc.prems(4) len2 by simp
    qed
    then show ?thesis using len2 by simp
  qed
qed

lemma fold_sg_num_length [simp]:
  "length (fold (\<lambda>k t. t[k := (t ! k)\<lparr>sg_num := v\<rparr>]) ks t) = length t"
  by (induction ks arbitrary: t) auto

lemma fold_sg_num_nth:
  "j < length t \<Longrightarrow>
     fold (\<lambda>k t. t[k := (t ! k)\<lparr>sg_num := v\<rparr>]) [a..<b] t ! j
       = (if a \<le> j \<and> j < b then (t ! j)\<lparr>sg_num := v\<rparr> else t ! j)"
  by (induction b) (auto simp: less_Suc_eq)

lemma trans_tbl_loop_length [simp]:
  "length (trans_tbl_loop pf sg is pg tt) = length tt"
  by (induction "is" arbitrary: pg tt) (auto simp: Let_def)

lemma trans_tbl_loop_below:
  "j < pg \<Longrightarrow> j < length tt \<Longrightarrow>
     sg_num (trans_tbl_loop pf sg is pg tt ! j) = sg_num (tt ! j)"
proof (induction "is" arbitrary: pg tt)
  case Nil
  then show ?case by simp
next
  case (Cons i "is")
  let ?n = "len_to_pages pf (sg_length (sg ! i))"
  let ?tt1 = "tt[i := (tt ! i)\<lparr>pg_count := pg\<rparr>]"
  let ?tt2 = "fold (\<lambda>k t. t[k := (t ! k)\<lparr>sg_num := i + 1\<rparr>]) [pg..<pg + ?n] ?tt1"
  have "sg_num (trans_tbl_loop pf sg is (pg + ?n) ?tt2 ! j) = sg_num (?tt2 ! j)"
    using Cons.prems by (intro Cons.IH) auto
  moreover have "sg_num (?tt2 ! j) = sg_num (tt ! j)"
    using Cons.prems by (cases "j = i") (simp_all add: fold_sg_num_nth)
  ultimately show ?case by (simp add: Let_def)
qed

lemma entry_first_page_Suc:
  "entry_first_page pf sg (Suc i) = entry_first_page pf sg i + entry_pages pf (sg ! i)"
  by (simp add: entry_first_page_def)

lemma entry_first_page_mono:
  "i \<le> k \<Longrightarrow> entry_first_page pf sg i \<le> entry_first_page pf sg k"
  by (induction k) (auto simp: entry_first_page_Suc le_Suc_eq)

text \<open>
  The table after the loop has visited the entries \<open>a\<close> to \<open>a + m - 1\<close>, when it
  started at entry \<open>a\<close> with the page index at which that entry begins.
\<close>

lemma trans_tbl_loop_pg_count:
  "i < length tt \<Longrightarrow>
     pg_count (trans_tbl_loop pf sg [a..<a + m] (entry_first_page pf sg a) tt ! i)
       = (if a \<le> i \<and> i < a + m then entry_first_page pf sg i else pg_count (tt ! i))"
proof (induction m arbitrary: a tt)
  case 0
  then show ?case by simp
next
  case (Suc m)
  let ?pg = "entry_first_page pf sg a"
  let ?n = "len_to_pages pf (sg_length (sg ! a))"
  let ?tt1 = "tt[a := (tt ! a)\<lparr>pg_count := ?pg\<rparr>]"
  let ?tt2 = "fold (\<lambda>k t. t[k := (t ! k)\<lparr>sg_num := a + 1\<rparr>]) [?pg..<?pg + ?n] ?tt1"
  have up: "[a..<a + Suc m] = a # [Suc a..<Suc a + m]"
    by (simp add: upt_conv_Cons)
  have nx: "?pg + ?n = entry_first_page pf sg (Suc a)"
    by (simp add: entry_first_page_Suc entry_pages_def)
  have step: "trans_tbl_loop pf sg [a..<a + Suc m] ?pg tt
                = trans_tbl_loop pf sg [Suc a..<Suc a + m] (entry_first_page pf sg (Suc a)) ?tt2"
    unfolding up by (simp add: Let_def nx del: upt_Suc)
  have i2: "i < length ?tt2" using Suc.prems by simp
  have t2: "pg_count (?tt2 ! i) = (if i = a then ?pg else pg_count (tt ! i))"
    using Suc.prems by (cases "i = a") (simp_all add: fold_sg_num_nth)
  show ?case
    unfolding step Suc.IH[OF i2] t2 by auto
qed

lemma trans_tbl_loop_sg_num:
  "a \<le> k \<Longrightarrow> k < a + m \<Longrightarrow> entry_first_page pf sg k \<le> j \<Longrightarrow>
   j < entry_first_page pf sg (Suc k) \<Longrightarrow> j < length tt \<Longrightarrow>
     sg_num (trans_tbl_loop pf sg [a..<a + m] (entry_first_page pf sg a) tt ! j) = k + 1"
proof (induction m arbitrary: a tt)
  case 0
  then show ?case by simp
next
  case (Suc m)
  let ?pg = "entry_first_page pf sg a"
  let ?n = "len_to_pages pf (sg_length (sg ! a))"
  let ?tt1 = "tt[a := (tt ! a)\<lparr>pg_count := ?pg\<rparr>]"
  let ?tt2 = "fold (\<lambda>k t. t[k := (t ! k)\<lparr>sg_num := a + 1\<rparr>]) [?pg..<?pg + ?n] ?tt1"
  have up: "[a..<a + Suc m] = a # [Suc a..<Suc a + m]"
    by (simp add: upt_conv_Cons)
  have nx: "?pg + ?n = entry_first_page pf sg (Suc a)"
    by (simp add: entry_first_page_Suc entry_pages_def)
  have step: "trans_tbl_loop pf sg [a..<a + Suc m] ?pg tt
                = trans_tbl_loop pf sg [Suc a..<Suc a + m] (entry_first_page pf sg (Suc a)) ?tt2"
    unfolding up by (simp add: Let_def nx del: upt_Suc)
  have j2: "j < length ?tt2" using Suc.prems by simp
  show ?case
  proof (cases "k = a")
    case True
    have "sg_num (trans_tbl_loop pf sg [Suc a..<Suc a + m] (entry_first_page pf sg (Suc a)) ?tt2 ! j)
            = sg_num (?tt2 ! j)"
      using Suc.prems(4) True j2 by (intro trans_tbl_loop_below) auto
    moreover have "sg_num (?tt2 ! j) = a + 1"
      using Suc.prems True nx by (simp add: fold_sg_num_nth)
    ultimately show ?thesis unfolding step using True by simp
  next
    case False
    then have "Suc a \<le> k" "k < Suc a + m" using Suc.prems by auto
    then show ?thesis
      unfolding step using Suc.prems(3,4) j2 by (rule Suc.IH)
  qed
qed

lemma entry_of_page:
  "j < entry_first_page pf sg b \<Longrightarrow>
     \<exists>k<b. entry_first_page pf sg k \<le> j \<and> j < entry_first_page pf sg (Suc k)"
proof (induction b)
  case 0
  then show ?case by (simp add: entry_first_page_def)
next
  case (Suc b)
  show ?case
  proof (cases "j < entry_first_page pf sg b")
    case True
    then obtain k where "k < b" "entry_first_page pf sg k \<le> j" "j < entry_first_page pf sg (Suc k)"
      using Suc.IH by blast
    then show ?thesis using less_Suc_eq by blast
  next
    case False
    then show ?thesis using Suc.prems by (intro exI[of _ b]) simp
  qed
qed

lemma entry_first_page_all:
  "entry_first_page pf sg (length sg) = sum_list (map (entry_pages pf) sg)"
proof -
  have "map (\<lambda>k. entry_pages pf (sg ! k)) [0..<length sg] = map (entry_pages pf) sg"
    by (intro nth_equalityI) auto
  then show ?thesis by (simp add: entry_first_page_def)
qed

lemma entry_first_page_const:
  "\<forall>i. c \<le> i \<and> i < k \<longrightarrow> sg_length (sg ! i) = 0 \<Longrightarrow> c \<le> k \<Longrightarrow>
     entry_first_page pf sg k = entry_first_page pf sg c"
  by (induction k) (auto simp: entry_first_page_Suc le_Suc_eq)

lemma entry_pages_pos: "0 < sg_length e \<Longrightarrow> 0 < entry_pages pf e"
  using PAGE_SIZE_pos[of pf]
  by (cases "sg_length e < PAGE_SIZE pf")
     (auto simp: entry_pages_def len_to_pages_def div_greater_zero_iff)

lemma fill_inv_init: "fill_inv pf (sg_init_table pages) 0 0"
  by (simp add: fill_inv_def sg_init_table_def sg_clear_def entry_pages_def len_to_pages_def)

text \<open>Unfolding the loops on numerals, for concrete runs.\<close>

lemma fill_loop_numeral:
  "sgv_fill_loop pf ct (numeral k) sg sg_cnt merged s =
     (case sgv_alloc_sys_pages pf s sg sg_cnt of
        (None, sg1, s1) \<Rightarrow> (False, sg1, sg_cnt, s1)
      | (Some page, sg1, s1) \<Rightarrow>
          (case (if ct = sgv_full_clustering
                 then sgv_check_full_clustering pf sg1 sg_cnt merged
                 else if ct = sgv_tail_clustering
                 then sgv_check_tail_clustering pf sg1 sg_cnt merged
                 else (- 1, sg1)) of
             (merged1, sg2) \<Rightarrow>
               sgv_fill_loop pf ct (pred_numeral k) sg2
                 (if merged1 = - 1 then sg_cnt + 1 else sg_cnt) merged1 s1))"
  by (simp add: numeral_eq_Suc)

lemma replicate_num: "replicate (numeral k) x = x # replicate (pred_numeral k) x"
  by (simp add: numeral_eq_Suc)

lemma list_update_num: "(x # xs)[numeral k := y] = x # xs[pred_numeral k := y]"
  by (simp add: numeral_eq_Suc)

lemmas fill_defs =
  replicate_num list_update_num
  sgv_alloc_sg_entries_def sgv_alloc_sys_pages_def alloc_pages_def fill_loop_numeral
  sgv_check_full_clustering_def full_clustering_test_def page_to_pfn_def len_to_pages_def
  sg_init_table_def trans_tbl_init_def sg_clear_def upt_conv_Cons Let_def

text \<open>
  Claim C5 says that \<open>sg_num\<close> is the entry a page belongs to and stays below
  \<open>sg_count\<close>. The source stores \<^verbatim>\<open>i+1\<close>, one more than the entry's index. In the
  pool with clustering, a request of two pages that are adjacent in memory gives one
  entry of two pages, and both pages have \<open>sg_num = 1 = sg_count\<close>.
\<close>

definition tbl_s0 :: sgv_state where
  "tbl_s0 = (boot_state 100 50)\<lparr>kmalloc_src := [Some 300], page_src := [Some 7, Some 8]\<rparr>"

definition tbl_r :: sgv_alloc_res where
  "tbl_r = the (sgv_pool_alloc pf_4k 20 8192 False {} 0 None quota10 0 tbl_s0)"

theorem trans_tbl_sg_num_counterexample:
  "res_sg tbl_r = Some [\<lparr>sg_page = Some 7, sg_offset = 0, sg_length = 8192\<rparr>, sg_clear]
   \<and> order_or_pages (the (res_sgv tbl_r)) = 1
   \<and> sg_count (the (res_sgv tbl_r)) = 1
   \<and> trans_tbl (the (res_sgv tbl_r))
        = Some [\<lparr>sg_num = 1, pg_count = 0\<rparr>, \<lparr>sg_num = 1, pg_count = 2\<rparr>]
   \<and> \<not> sg_num (the (trans_tbl (the (res_sgv tbl_r))) ! 0) < nat (sg_count (the (res_sgv tbl_r)))"
  by (simp add: tbl_r_def tbl_s0_def quota10_def run_defs fill_defs)

text \<open>
  Claim C5, amended. When \<^verbatim>\<open>sgv_alloc_sg_entries\<close> fills a freshly initialised
  entry array of \<open>pages\<close> entries in a clustering mode and succeeds with \<open>cnt\<close>
  entries, the translation table keeps its length, one entry per page; for every entry
  \<open>i\<close> in use, \<open>pg_count\<close> of table entry \<open>i\<close> is the page index at which
  entry \<open>i\<close> begins; for every page \<open>j\<close>, \<open>sg_num\<close> of table entry \<open>j\<close> is
  one more than the index of the entry that holds page \<open>j\<close>, so it lies between 1
  and \<open>cnt\<close>; the last page belongs to the last entry in use. The loop's page index
  ends at \<open>pages\<close>, so every write it makes is inside the table. What the table held
  before does not matter.
\<close>

theorem trans_tbl_after_fill:
  assumes ct: "ct \<noteq> sgv_no_clustering"
    and t: "length t = nat pages"
    and R: "sgv_alloc_sg_entries pf (sg_init_table pages) pages ct (Some t) s
              = (cnt, sg, tt', s')"
    and cnt: "0 < cnt"
  shows "\<exists>tt. tt' = Some tt \<and> length tt = nat pages \<and> cnt \<le> pages
           \<and> (\<forall>i<nat cnt. pg_count (tt ! i) = entry_first_page pf sg i)
           \<and> (\<forall>j<nat pages. 1 \<le> sg_num (tt ! j) \<and> sg_num (tt ! j) \<le> nat cnt
                 \<and> entry_first_page pf sg (sg_num (tt ! j) - 1) \<le> j
                 \<and> j < entry_first_page pf sg (sg_num (tt ! j)))
           \<and> sg_num (tt ! (nat pages - 1)) = nat cnt
           \<and> entry_first_page pf sg (nat pages) = nat pages"
proof -
  define N where "N = nat pages"
  obtain ok sg1 c s1 where
    fill: "sgv_fill_loop pf ct N (sg_init_table pages) 0 (- 1) s = (ok, sg1, c, s1)"
    by (metis prod_cases4)
  have ok: ok using R cnt fill by (cases ok) (auto simp: sgv_alloc_sg_entries_def N_def)
  define tt where "tt = trans_tbl_loop pf sg [0..<0 + N] (entry_first_page pf sg 0) t"
  have res: "cnt = int c" "sg = sg1" "tt' = Some tt"
    using R fill ok ct
    by (auto simp: sgv_alloc_sg_entries_def N_def tt_def entry_first_page_def)
  have fill': "sgv_fill_loop pf ct N (sg_init_table pages) 0 (- 1) s = (True, sg1, c, s1)"
    using fill ok by simp
  have "fill_inv pf sg1 c (0 + N) \<and> length sg1 = length (sg_init_table pages)"
    using fill' fill_inv_init
    by (rule fill_loop_inv) (simp_all add: sg_init_table_def N_def)
  then have inv: "fill_inv pf sg c N" and len: "length sg = N"
    by (simp_all add: res sg_init_table_def N_def)
  have cN: "c \<le> N" and c0: "0 < c"
    and pos: "\<And>i. i < c \<Longrightarrow> 0 < sg_length (sg ! i)"
    and zero: "\<And>i. c \<le> i \<Longrightarrow> i < N \<Longrightarrow> sg_length (sg ! i) = 0"
    and total: "sum_list (map (entry_pages pf) sg) = N"
    using inv cnt res(1) len by (auto simp: fill_inv_def)
  have lt: "length tt = N" by (simp add: tt_def t N_def)
  have FN: "entry_first_page pf sg N = N"
    using entry_first_page_all[of pf sg] len total by simp
  have Fc: "entry_first_page pf sg c = N"
    using entry_first_page_const[of c N sg pf] zero cN FN by simp
  have pgc: "pg_count (tt ! i) = entry_first_page pf sg i" if "i < c" for i
    using trans_tbl_loop_pg_count[of i t pf sg 0 N] that cN t by (simp add: tt_def N_def)
  have num: "1 \<le> sg_num (tt ! j) \<and> sg_num (tt ! j) \<le> c
               \<and> entry_first_page pf sg (sg_num (tt ! j) - 1) \<le> j
               \<and> j < entry_first_page pf sg (sg_num (tt ! j))" if j: "j < N" for j
  proof -
    obtain k where k: "k < N" "entry_first_page pf sg k \<le> j"
        "j < entry_first_page pf sg (Suc k)"
      using entry_of_page[of j pf sg N] j FN by auto
    have n: "sg_num (tt ! j) = k + 1"
      unfolding tt_def using _ _ k(2,3)
      by (rule trans_tbl_loop_sg_num) (use k(1) j t in \<open>simp_all add: N_def\<close>)
    have "0 < entry_pages pf (sg ! k)"
      using k(2,3) by (simp add: entry_first_page_Suc)
    then have "sg_length (sg ! k) \<noteq> 0"
      using entry_pages_zero[of "sg ! k" pf] by (cases "sg_length (sg ! k) = 0") auto
    then have "k < c" using zero[of k] k(1) by (cases "k < c") auto
    then show ?thesis using n k by simp
  qed
  have N0: "0 < N" using c0 cN by simp
  have last: "sg_num (tt ! (N - 1)) = c"
  proof (rule ccontr)
    assume ne: "sg_num (tt ! (N - 1)) \<noteq> c"
    let ?k = "sg_num (tt ! (N - 1))"
    have a: "1 \<le> ?k" "?k \<le> c" "N - 1 < entry_first_page pf sg ?k"
      using num[of "N - 1"] N0 by auto
    have "?k \<le> c - 1" using a ne by simp
    then have "entry_first_page pf sg ?k \<le> entry_first_page pf sg (c - 1)"
      by (rule entry_first_page_mono)
    moreover have "entry_first_page pf sg (c - 1) < entry_first_page pf sg c"
      using entry_first_page_Suc[of pf sg "c - 1"] entry_pages_pos[OF pos[of "c - 1"], of pf] c0
      by simp
    ultimately show False using a(3) Fc by simp
  qed
  have le: "cnt \<le> pages" using res(1) cN c0 unfolding N_def by linarith
  have nc: "nat cnt = c" using res(1) by simp
  show ?thesis
    unfolding nc N_def[symmetric]
    using res(3) lt le pgc num last FN by (intro exI[of _ tt]) simp
qed

text \<open>
  Three pages in full-clustering mode, the first two adjacent: two entries, of two pages
  and of one.
\<close>

lemma fill_three:
  assumes "page_src s = [Some 7, Some 8, Some 20]"
  shows "sgv_alloc_sg_entries pf_4k (sg_init_table 3) 3 sgv_full_clustering
           (Some (trans_tbl_init 3)) s
         = (2,
            [\<lparr>sg_page = Some 7, sg_offset = 0, sg_length = 8192\<rparr>,
             \<lparr>sg_page = Some 20, sg_offset = 0, sg_length = 4096\<rparr>,
             sg_clear],
            Some [\<lparr>sg_num = 1, pg_count = 0\<rparr>, \<lparr>sg_num = 1, pg_count = 2\<rparr>,
                  \<lparr>sg_num = 2, pg_count = 3\<rparr>],
            s\<lparr>page_src := [], pages_live := add_mset 20 (add_mset 8 (add_mset 7 (pages_live s)))\<rparr>)"
  using assms by (simp add: fill_defs)

definition tbl_w0 :: sgv_state where
  "tbl_w0 = (boot_state 100 50)\<lparr>page_src := [Some 7, Some 8, Some 20]\<rparr>"

definition tbl_sg :: "scatterlist list" where
  "tbl_sg = [\<lparr>sg_page = Some 7, sg_offset = 0, sg_length = 8192\<rparr>,
             \<lparr>sg_page = Some 20, sg_offset = 0, sg_length = 4096\<rparr>,
             sg_clear]"

definition tbl_tt :: "trans_tbl_ent list" where
  "tbl_tt = [\<lparr>sg_num = 1, pg_count = 0\<rparr>, \<lparr>sg_num = 1, pg_count = 2\<rparr>,
             \<lparr>sg_num = 2, pg_count = 3\<rparr>]"

theorem trans_tbl_after_fill_witness:
  "sgv_full_clustering \<noteq> sgv_no_clustering
   \<and> length (trans_tbl_init 3) = nat 3
   \<and> sgv_alloc_sg_entries pf_4k (sg_init_table 3) 3 sgv_full_clustering
        (Some (trans_tbl_init 3)) tbl_w0
      = (2, tbl_sg, Some tbl_tt,
         tbl_w0\<lparr>page_src := [], pages_live := {#20, 8, 7#}\<rparr>)
   \<and> (0::int) < 2
   \<and> length tbl_tt = 3
   \<and> pg_count (tbl_tt ! 1) = entry_first_page pf_4k tbl_sg 1
   \<and> entry_first_page pf_4k tbl_sg 1 = 2
   \<and> map sg_num tbl_tt = [1, 1, 2]
   \<and> sg_num (tbl_tt ! (nat 3 - 1)) = nat 2
   \<and> entry_first_page pf_4k tbl_sg (nat 3) = nat 3"
proof -
  have h1: "sgv_full_clustering \<noteq> sgv_no_clustering" by simp
  have h2: "length (trans_tbl_init 3) = nat 3" by (simp add: trans_tbl_init_def)
  have R: "sgv_alloc_sg_entries pf_4k (sg_init_table 3) 3 sgv_full_clustering
             (Some (trans_tbl_init 3)) tbl_w0
           = (2, tbl_sg, Some tbl_tt,
              tbl_w0\<lparr>page_src := [], pages_live := {#20, 8, 7#}\<rparr>)"
    using fill_three[of tbl_w0]
    by (simp add: tbl_w0_def tbl_sg_def tbl_tt_def boot_state_def)
  have h4: "(0::int) < 2" by simp
  from trans_tbl_after_fill[OF h1 h2 R h4]
  have c: "length tbl_tt = nat 3"
    "\<forall>i<nat 2. pg_count (tbl_tt ! i) = entry_first_page pf_4k tbl_sg i"
    "sg_num (tbl_tt ! (nat 3 - 1)) = nat 2"
    "entry_first_page pf_4k tbl_sg (nat 3) = nat 3"
    by auto
  have p: "pg_count (tbl_tt ! 1) = entry_first_page pf_4k tbl_sg 1"
    using c(2) by simp
  then have q: "entry_first_page pf_4k tbl_sg 1 = 2" by (simp add: tbl_tt_def)
  have n: "map sg_num tbl_tt = [1, 1, 2]" by (simp add: tbl_tt_def)
  show ?thesis
    using h1 h2 R h4 c(1,3,4) p q n by simp
qed


section \<open>Failure of an allocation (claim C3)\<close>

text \<open>
  The pages the first \<open>c\<close> entries of a vector cover, as
  \<^verbatim>\<open>sgv_free_sys_sg_entries\<close> walks them. The page loop keeps the pages it has
  allocated equal to the pages its entries cover, through every merge; so freeing the
  entries after a failed page allocation frees exactly the pages of this call.
\<close>

definition held :: "platform \<Rightarrow> scatterlist list \<Rightarrow> nat \<Rightarrow> nat multiset" where
  "held pf sg c = (\<Sum>e\<leftarrow>take c sg. mset (entry_pfns pf e))"

lemma held_0 [simp]: "held pf sg 0 = {#}"
  by (simp add: held_def)






































end
